theory Spec2Isabelle
  imports Complex_Main "HOL-Library.Word"
begin

unbundle bit_operations_syntax

section \<open>Bytes, errors and the host platform\<close>

type_synonym byte = "8 word"
type_synonym bytes = "byte list"

text \<open>
  Every \<open>throw\<close> of the source is a value of \<open>error\<close>; one constructor per throw site.
  \<open>OperationError\<close> is what Web Crypto's \<open>decrypt\<close> raises on bad padding,
  \<open>RangeError\<close> what \<open>TypedArray.set\<close> raises when the source does not fit, and
  \<open>TypeError\<close> what calling a missing method raises.
\<close>

datatype error =
    NoPaddingEncryptArgs
  | NoPaddingDecryptArgs
  | CbcKeyIvLength
  | CbcCiphertextLength
  | EcbArgs
  | OperationError
  | RangeError
  | TypeError
  | ObjectTooShort
  | NotEncrypted
  | InvalidEncryptObject
  | UnsupportedEncryption real real
  | InvalidEncryptFields
  | WrongPassword

definition bindE :: "error + 'a \<Rightarrow> ('a \<Rightarrow> error + 'b) \<Rightarrow> error + 'b" where
  "bindE m f = (case m of Inl e \<Rightarrow> Inl e | Inr x \<Rightarrow> f x)"

text \<open>
  The host supplies SHA-256 and the AES-256 block transformation; neither is code of the
  repository. They are the fields of \<open>platform\<close>: \<open>digest\<close> is
  \<open>crypto.subtle.digest('SHA-256', _)\<close>, \<open>block_enc key\<close> and \<open>block_dec key\<close> are the
  forward and inverse AES transformations of one 16-byte block under a 32-byte key.
\<close>

record platform =
  digest :: "bytes \<Rightarrow> bytes"
  block_enc :: "bytes \<Rightarrow> bytes \<Rightarrow> bytes"
  block_dec :: "bytes \<Rightarrow> bytes \<Rightarrow> bytes"

definition cipher_ok :: "platform \<Rightarrow> bool" where
  "cipher_ok P \<longleftrightarrow>
     (\<forall>k b. length k = 32 \<and> length b = 16 \<longrightarrow>
        length (block_enc P k b) = 16 \<and> length (block_dec P k b) = 16 \<and>
        block_dec P k (block_enc P k b) = b)"

definition digest_ok :: "platform \<Rightarrow> bool" where
  "digest_ok P \<longleftrightarrow> (\<forall>x. length (digest P x) = 32)"

definition platform_ok :: "platform \<Rightarrow> bool" where
  "platform_ok P \<longleftrightarrow> cipher_ok P \<and> digest_ok P"

text \<open>
  Randomness: \<open>getRandomBytes\<close> reads the next \<open>n\<close> bytes of an entropy source, which is
  passed along explicitly. The source is an infinite sequence of bytes.
\<close>

type_synonym rng = "nat \<Rightarrow> byte"

definition getRandomBytes :: "nat \<Rightarrow> rng \<Rightarrow> bytes \<times> rng" where
  "getRandomBytes n g = (map g [0..<n], \<lambda>i. g (i + n))"

text \<open>The \<open>n\<close> bytes of the entropy source from position \<open>off\<close> on.\<close>

definition rbytes :: "rng \<Rightarrow> nat \<Rightarrow> nat \<Rightarrow> bytes" where
  "rbytes g off n = map (\<lambda>i. g (i + off)) [0..<n]"

section \<open>Typed-array helpers\<close>

definition byte_at :: "bytes \<Rightarrow> nat \<Rightarrow> byte" where
  "byte_at a i = (if i < length a then a ! i else 0)"

definition subarray :: "bytes \<Rightarrow> nat \<Rightarrow> nat \<Rightarrow> bytes" where
  "subarray a b e = take (e - b) (drop b a)"

definition typed_set :: "bytes \<Rightarrow> bytes \<Rightarrow> nat \<Rightarrow> error + bytes" where
  "typed_set out src off =
     (if length out < off + length src then Inl RangeError
      else Inr (take off out @ src @ drop (off + length src) out))"

definition zeros :: "nat \<Rightarrow> bytes" where
  "zeros n = replicate n 0"

definition concat_bytes :: "bytes list \<Rightarrow> bytes" where
  "concat_bytes arr = concat arr"

section \<open>Web Crypto AES-CBC (platform operation over the block transformation)\<close>

text \<open>
  \<open>crypto.subtle.encrypt({name:'AES-CBC', iv}, key, data)\<close> pads \<open>data\<close> with PKCS#7 to a
  whole number of blocks (a full block of padding when \<open>data\<close> already is one) and chains
  the blocks; \<open>crypto.subtle.decrypt\<close> undoes the chaining, checks the padding and
  removes it, raising \<open>OperationError\<close> when the padding is malformed. Both are called
  by the source with a 32-byte key and a 16-byte IV only.
\<close>

definition chunks16 :: "bytes \<Rightarrow> bytes list" where
  "chunks16 xs = map (\<lambda>i. take 16 (drop (16 * i) xs)) [0..<length xs div 16]"

definition pkcs7_pad :: "bytes \<Rightarrow> bytes" where
  "pkcs7_pad xs = (let n = 16 - length xs mod 16 in xs @ replicate n (of_nat n))"

definition pkcs7_unpad :: "bytes \<Rightarrow> error + bytes" where
  "pkcs7_unpad xs =
     (if xs = [] then Inl OperationError
      else let p = unat (last xs) in
        if p = 0 \<or> 16 < p \<or> length xs < p then Inl OperationError
        else if list_all (\<lambda>b. b = last xs) (drop (length xs - p) xs)
             then Inr (take (length xs - p) xs)
             else Inl OperationError)"

fun cbc_enc_blocks :: "platform \<Rightarrow> bytes \<Rightarrow> bytes \<Rightarrow> bytes list \<Rightarrow> bytes" where
  "cbc_enc_blocks P key prev [] = []"
| "cbc_enc_blocks P key prev (b # bs) =
     (let c = block_enc P key (map2 (XOR) prev b) in c @ cbc_enc_blocks P key c bs)"

fun cbc_dec_blocks :: "platform \<Rightarrow> bytes \<Rightarrow> bytes \<Rightarrow> bytes list \<Rightarrow> bytes" where
  "cbc_dec_blocks P key prev [] = []"
| "cbc_dec_blocks P key prev (c # cs) =
     map2 (XOR) prev (block_dec P key c) @ cbc_dec_blocks P key c cs"

definition subtle_encrypt :: "platform \<Rightarrow> bytes \<Rightarrow> bytes \<Rightarrow> bytes \<Rightarrow> bytes" where
  "subtle_encrypt P key iv data = cbc_enc_blocks P key iv (chunks16 (pkcs7_pad data))"

definition subtle_decrypt :: "platform \<Rightarrow> bytes \<Rightarrow> bytes \<Rightarrow> bytes \<Rightarrow> error + bytes" where
  "subtle_decrypt P key iv data =
     (if data = [] \<or> length data mod 16 \<noteq> 0 then Inl OperationError
      else pkcs7_unpad (cbc_dec_blocks P key iv (chunks16 data)))"

section \<open>crypto.ts\<close>

text \<open>
  Every cipher function of the source has two branches: Web Crypto when
  \<open>globalThis.crypto.subtle\<close> exists, Node's \<open>crypto\<close> module otherwise. The model follows
  the Web Crypto branch; \<open>getRandomBytes\<close> has no other, so it is the branch of every
  run that encrypts. For the single-block decryption, where the two branches are
  written differently, the Node branch is \<open>aes256EcbDecrypt_node\<close> below.
\<close>

definition AES_BLOCK_SIZE :: nat where "AES_BLOCK_SIZE = 16"
definition KEY_LENGTH :: nat where "KEY_LENGTH = 32"

definition sha256 :: "platform \<Rightarrow> bytes \<Rightarrow> bytes" where
  "sha256 P data = digest P data"

definition xor16 :: "bytes \<Rightarrow> bytes \<Rightarrow> bytes" where
  "xor16 a b = map (\<lambda>i. byte_at a i XOR byte_at b i) [0..<16]"

definition aes256CbcEncrypt :: "platform \<Rightarrow> bytes \<Rightarrow> bytes \<Rightarrow> bytes \<Rightarrow> error + bytes" where
  "aes256CbcEncrypt P key iv plaintext =
     (if length key \<noteq> KEY_LENGTH \<or> length iv \<noteq> AES_BLOCK_SIZE then Inl CbcKeyIvLength
      else Inr (subtle_encrypt P key iv plaintext))"

definition aes256CbcDecrypt :: "platform \<Rightarrow> bytes \<Rightarrow> bytes \<Rightarrow> bytes \<Rightarrow> error + bytes" where
  "aes256CbcDecrypt P key iv ciphertext =
     (if length key \<noteq> KEY_LENGTH \<or> length iv \<noteq> AES_BLOCK_SIZE then Inl CbcKeyIvLength
      else if length ciphertext mod AES_BLOCK_SIZE \<noteq> 0 then Inl CbcCiphertextLength
      else subtle_decrypt P key iv ciphertext)"

definition aes256EcbEncrypt :: "platform \<Rightarrow> bytes \<Rightarrow> bytes \<Rightarrow> error + bytes" where
  "aes256EcbEncrypt P key block =
     (if length block \<noteq> AES_BLOCK_SIZE \<or> length key \<noteq> KEY_LENGTH then Inl EcbArgs
      else Inr (take AES_BLOCK_SIZE (subtle_encrypt P key (zeros 16) block)))"

definition FULL_PAD :: bytes where
  "FULL_PAD = replicate 16 16"

definition aes256EcbDecrypt :: "platform \<Rightarrow> bytes \<Rightarrow> bytes \<Rightarrow> error + bytes" where
  "aes256EcbDecrypt P key block =
     (if length block \<noteq> AES_BLOCK_SIZE \<or> length key \<noteq> KEY_LENGTH then Inl EcbArgs
      else
        bindE (aes256EcbEncrypt P key (xor16 FULL_PAD block)) (\<lambda>c2.
        bindE (typed_set (zeros 32) block 0) (\<lambda>t1.
        bindE (typed_set t1 c2 16) (\<lambda>twoBlocks.
        subtle_decrypt P key (zeros 16) twoBlocks))))"

text \<open>
  The Node branch of \<open>aes256EcbDecrypt\<close>: a CBC decipher with a zero IV and automatic
  padding switched off, fed the one block.
\<close>

definition aes256EcbDecrypt_node :: "platform \<Rightarrow> bytes \<Rightarrow> bytes \<Rightarrow> error + bytes" where
  "aes256EcbDecrypt_node P key block =
     (if length block \<noteq> AES_BLOCK_SIZE \<or> length key \<noteq> KEY_LENGTH then Inl EcbArgs
      else Inr (cbc_dec_blocks P key (zeros 16) (chunks16 block)))"

text \<open>
  The loops of the unpadded chained mode, one 16-byte block per iteration, writing the
  block at offset \<open>i\<close> of the preallocated output.
\<close>

function encNoPaddingLoop ::
  "platform \<Rightarrow> bytes \<Rightarrow> bytes \<Rightarrow> nat \<Rightarrow> bytes \<Rightarrow> bytes \<Rightarrow> error + bytes" where
  "encNoPaddingLoop P key plaintext i prev out =
     (if i < length plaintext then
        bindE (aes256EcbEncrypt P key (xor16 prev (subarray plaintext i (i + AES_BLOCK_SIZE)))) (\<lambda>enc.
        bindE (typed_set out enc i) (\<lambda>out'.
        encNoPaddingLoop P key plaintext (i + AES_BLOCK_SIZE) enc out'))
      else Inr out)"
  by pat_completeness auto
termination
  by (relation "measure (\<lambda>(P, key, plaintext, i, prev, out). length plaintext - i)")
     (auto simp: AES_BLOCK_SIZE_def)

declare encNoPaddingLoop.simps [simp del]

definition aes256CbcEncryptNoPadding ::
  "platform \<Rightarrow> bytes \<Rightarrow> bytes \<Rightarrow> bytes \<Rightarrow> error + bytes" where
  "aes256CbcEncryptNoPadding P key iv plaintext =
     (if length plaintext mod AES_BLOCK_SIZE \<noteq> 0 \<or> length iv \<noteq> AES_BLOCK_SIZE
      then Inl NoPaddingEncryptArgs
      else encNoPaddingLoop P key plaintext 0 iv (zeros (length plaintext)))"

definition xor_into :: "bytes \<Rightarrow> nat \<Rightarrow> bytes \<Rightarrow> bytes \<Rightarrow> bytes" where
  "xor_into out i prev dec =
     fold (\<lambda>j o'. if i + j < length o' then o'[i + j := byte_at prev j XOR byte_at dec j] else o')
          [0..<16] out"

function decNoPaddingLoop ::
  "platform \<Rightarrow> bytes \<Rightarrow> bytes \<Rightarrow> nat \<Rightarrow> bytes \<Rightarrow> bytes \<Rightarrow> error + bytes" where
  "decNoPaddingLoop P key ciphertext i prev out =
     (if i < length ciphertext then
        (let enc = subarray ciphertext i (i + AES_BLOCK_SIZE) in
         bindE (aes256EcbDecrypt P key enc) (\<lambda>dec.
         decNoPaddingLoop P key ciphertext (i + AES_BLOCK_SIZE) enc (xor_into out i prev dec)))
      else Inr out)"
  by pat_completeness auto
termination
  by (relation "measure (\<lambda>(P, key, ciphertext, i, prev, out). length ciphertext - i)")
     (auto simp: AES_BLOCK_SIZE_def)

declare decNoPaddingLoop.simps [simp del]

definition aes256CbcDecryptNoPadding ::
  "platform \<Rightarrow> bytes \<Rightarrow> bytes \<Rightarrow> bytes \<Rightarrow> error + bytes" where
  "aes256CbcDecryptNoPadding P key iv ciphertext =
     (if length ciphertext mod AES_BLOCK_SIZE \<noteq> 0 \<or> length iv \<noteq> AES_BLOCK_SIZE
      then Inl NoPaddingDecryptArgs
      else decNoPaddingLoop P key ciphertext 0 iv (zeros (length ciphertext)))"

section \<open>saslprep.ts\<close>

text \<open>
  A password is held as the UTF-8 text of the JavaScript string, one \<open>char\<close> per byte, so
  \<open>TextEncoder.encode\<close> reads the bytes off; two well-formed strings differ exactly
  when their UTF-8 texts differ, and the empty string is the empty text.
\<close>

definition TextEncoder_encode :: "string \<Rightarrow> bytes" where
  "TextEncoder_encode password = map of_char password"

definition MAX_PASSWORD_UTF8_BYTES :: nat where
  "MAX_PASSWORD_UTF8_BYTES = 127"

definition preparePassword :: "string \<Rightarrow> bytes" where
  "preparePassword password =
     (let encoded = TextEncoder_encode password in
      if MAX_PASSWORD_UTF8_BYTES < length encoded
      then take MAX_PASSWORD_UTF8_BYTES encoded
      else encoded)"

section \<open>kdf.ts\<close>

definition ZERO_IV :: bytes where
  "ZERO_IV = zeros 16"

record Rev5Keys =
  fileEncryptionKey :: bytes
  rev5_O :: bytes
  rev5_U :: bytes
  rev5_OE :: bytes
  rev5_UE :: bytes
  rev5_Perms :: bytes

record Rev5EncryptParams =
  userPassword :: string
  ownerPassword :: string
  permissions :: int
  encryptMetadata :: bool

text \<open>
  The permission number is an integer; \<open>(permissions >>> 0) & 0xFFFFFFFF\<close> keeps its low
  32 bits, as a signed 32-bit value on which \<open>>>\<close> shifts arithmetically. Storing into a
  \<open>Uint8Array\<close> keeps the low 8 bits.
\<close>

definition permsBlock_of :: "int \<Rightarrow> bool \<Rightarrow> bytes" where
  "permsBlock_of perms encMeta =
     (let p = (word_of_int perms :: 32 word) in
      (zeros 16)
        [0 := ucast (p AND 0xFF),
         1 := ucast (signed_drop_bit 8 p AND 0xFF),
         2 := ucast (signed_drop_bit 16 p AND 0xFF),
         3 := ucast (signed_drop_bit 24 p AND 0xFF),
         4 := 0xFF,
         5 := 0xFF,
         6 := 0xFF,
         7 := 0xFF,
         8 := (if encMeta then 0x54 else 0x46),
         9 := 0x61,
         10 := 0x64,
         11 := 0x62])"

definition computeRev5Keys ::
  "platform \<Rightarrow> Rev5EncryptParams \<Rightarrow> rng \<Rightarrow> error + Rev5Keys \<times> rng" where
  "computeRev5Keys P params g =
     (let userPwd = preparePassword (userPassword params);
          ownerPwd = preparePassword
            (if ownerPassword params \<noteq> [] then ownerPassword params else userPassword params);
          (fileKey, g1) = getRandomBytes 32 g;
          (userValSalt, g2) = getRandomBytes 8 g1;
          (userKeySalt, g3) = getRandomBytes 8 g2;
          uHash = sha256 P (concat_bytes [userPwd, userValSalt]);
          U_str = concat_bytes [uHash, userValSalt, userKeySalt];
          ueKey = sha256 P (concat_bytes [userPwd, userKeySalt])
      in bindE (aes256CbcEncryptNoPadding P ueKey ZERO_IV fileKey) (\<lambda>UE.
         let (ownerValSalt, g4) = getRandomBytes 8 g3;
             (ownerKeySalt, g5) = getRandomBytes 8 g4;
             oHash = sha256 P (concat_bytes [ownerPwd, ownerValSalt, U_str]);
             O_str = concat_bytes [oHash, ownerValSalt, ownerKeySalt];
             oeKey = sha256 P (concat_bytes [ownerPwd, ownerKeySalt, U_str])
         in bindE (aes256CbcEncryptNoPadding P oeKey ZERO_IV fileKey) (\<lambda>OE.
            let (rnd, g6) = getRandomBytes 4 g5
            in bindE (typed_set (permsBlock_of (permissions params) (encryptMetadata params)) rnd 12)
                 (\<lambda>permsBlock.
               bindE (aes256EcbEncrypt P fileKey permsBlock) (\<lambda>Perms.
               Inr (\<lparr>fileEncryptionKey = fileKey, rev5_O = O_str, rev5_U = U_str,
                         rev5_OE = OE, rev5_UE = UE, rev5_Perms = Perms\<rparr>, g6))))))"

definition compareBytes :: "bytes \<Rightarrow> bytes \<Rightarrow> nat" where
  "compareBytes a b =
     (if length a \<noteq> length b then 1
      else if list_ex (\<lambda>i. a ! i \<noteq> b ! i) [0..<length a] then 1
      else 0)"

text \<open>
  Each attempt is a \<open>try\<close> block whose \<open>catch\<close> is empty: an error of the unwrapping, or
  a key of another length, falls through to the next attempt.
\<close>

definition tryUnwrap :: "platform \<Rightarrow> bytes \<Rightarrow> bytes \<Rightarrow> bytes option" where
  "tryUnwrap P wrapKey wrapped =
     (case aes256CbcDecryptNoPadding P wrapKey ZERO_IV wrapped of
        Inl e \<Rightarrow> None
      | Inr key \<Rightarrow> if length key = 32 then Some key else None)"

definition deriveFileKeyFromPassword ::
  "platform \<Rightarrow> string \<Rightarrow> bytes \<Rightarrow> bytes \<Rightarrow> bytes \<Rightarrow> bytes \<Rightarrow> bytes option" where
  "deriveFileKeyFromPassword P password U_str O_str OE UE =
     (let pwd = preparePassword password;
          userValSalt = subarray U_str 32 40;
          userKeySalt = subarray U_str 40 48;
          uCheck = sha256 P (concat_bytes [pwd, userValSalt]);
          userAttempt =
            (if compareBytes uCheck (subarray U_str 0 32) = 0
             then tryUnwrap P (sha256 P (concat_bytes [pwd, userKeySalt])) UE
             else None)
      in case userAttempt of
           Some key \<Rightarrow> Some key
         | None \<Rightarrow>
            (let ownerValSalt = subarray O_str 32 40;
                 ownerKeySalt = subarray O_str 40 48;
                 oCheck = sha256 P (concat_bytes [pwd, ownerValSalt, U_str])
             in if compareBytes oCheck (subarray O_str 0 32) = 0
                then tryUnwrap P (sha256 P (concat_bytes [pwd, ownerKeySalt, U_str])) OE
                else None))"

section \<open>The document object model\<close>

text \<open>
  The object graph of the document library, as far as the walkers look at it: an indirect
  object is a tree of direct objects whose leaves may be references. A name is held
  without its leading slash, a string by the bytes \<open>asBytes()\<close> returns, a dictionary by
  its entries in insertion order (its keys are distinct), a raw stream by its dictionary
  and its contents.
\<close>

datatype pdfobj =
    PDFNull
  | PDFBool bool
  | PDFNumber real
  | PDFName string
  | PDFString bytes
  | PDFHexString bytes
  | PDFRef nat
  | PDFArray "pdfobj list"
  | PDFDict "(string \<times> pdfobj) list"
  | PDFRawStream "(string \<times> pdfobj) list" bytes

record pdf_document =
  objects :: "(nat \<times> pdfobj) list"
  trailer_ID :: "pdfobj option"
  trailer_Encrypt :: "pdfobj option"

definition dict_get :: "(string \<times> pdfobj) list \<Rightarrow> string \<Rightarrow> pdfobj option" where
  "dict_get d k = (case map_of d k of Some PDFNull \<Rightarrow> None | r \<Rightarrow> r)"

definition context_lookup :: "pdf_document \<Rightarrow> pdfobj option \<Rightarrow> pdfobj option" where
  "context_lookup doc r =
     (case r of Some (PDFRef n) \<Rightarrow> map_of (objects doc) n | other \<Rightarrow> other)"

definition dict_lookup :: "pdf_document \<Rightarrow> (string \<times> pdfobj) list \<Rightarrow> string \<Rightarrow> pdfobj option" where
  "dict_lookup doc d k =
     (case context_lookup doc (dict_get d k) of Some PDFNull \<Rightarrow> None | r \<Rightarrow> r)"

definition largestObjectNumber :: "pdf_document \<Rightarrow> nat" where
  "largestObjectNumber doc = fold max (map fst (objects doc)) 0"

definition context_register :: "pdf_document \<Rightarrow> pdfobj \<Rightarrow> pdfobj \<times> pdf_document" where
  "context_register doc obj =
     (let n = Suc (largestObjectNumber doc)
      in (PDFRef n, doc\<lparr>objects := objects doc @ [(n, obj)]\<rparr>))"

text \<open>
  Hexadecimal text. \<open>bytesToHex\<close> is the source's (\<open>b.toString(16).padStart(2, '0')\<close>
  for every byte). \<open>hexAsBytes\<close> is how the document library reads the text of a hex
  string back: two characters per byte, a missing last character read as \<open>0\<close>, each
  pair read by \<open>parseInt(_, 16)\<close>, which takes the leading hex digits and gives no
  number, stored as 0, when there is none. The entry points build hex strings from
  \<open>bytesToHex\<close> only, so signs, blanks and an \<open>0x\<close> prefix, which \<open>parseInt\<close> would
  also accept, are left out.
\<close>

definition hexDigit :: "nat \<Rightarrow> char" where
  "hexDigit n = ''0123456789abcdef'' ! n"

definition toString16 :: "nat \<Rightarrow> string" where
  "toString16 n = (if n < 16 then [hexDigit n] else [hexDigit (n div 16), hexDigit (n mod 16)])"

definition padStart2 :: "string \<Rightarrow> string" where
  "padStart2 s = replicate (2 - length s) CHR ''0'' @ s"

definition bytesToHex :: "bytes \<Rightarrow> string" where
  "bytesToHex bs = concat (map (\<lambda>b. padStart2 (toString16 (unat b))) bs)"

definition hexValue :: "char \<Rightarrow> nat option" where
  "hexValue c =
     (let n = (of_char c :: nat) in
      if 48 \<le> n \<and> n \<le> 57 then Some (n - 48)
      else if 97 \<le> n \<and> n \<le> 102 then Some (n - 87)
      else if 65 \<le> n \<and> n \<le> 70 then Some (n - 55)
      else None)"

definition parseInt16 :: "char \<Rightarrow> char \<Rightarrow> nat" where
  "parseInt16 a b =
     (case hexValue a of
        None \<Rightarrow> 0
      | Some x \<Rightarrow> (case hexValue b of None \<Rightarrow> x | Some y \<Rightarrow> 16 * x + y))"

fun hexAsBytes :: "string \<Rightarrow> bytes" where
  "hexAsBytes (a # b # r) = of_nat (parseInt16 a b) # hexAsBytes r"
| "hexAsBytes [a] = [of_nat (parseInt16 a CHR ''0'')]"
| "hexAsBytes [] = []"

definition PDFHexStringOf :: "string \<Rightarrow> pdfobj" where
  "PDFHexStringOf hex = PDFHexString (hexAsBytes hex)"

text \<open>
  \<open>asString()\<close> exists on names (the name with its slash) and on both string kinds
  (their text); on any other object the call is a \<open>TypeError\<close>.
\<close>

definition asString :: "pdfobj \<Rightarrow> error + string" where
  "asString v =
     (case v of
        PDFName n \<Rightarrow> Inr (CHR ''/'' # n)
      | PDFString b \<Rightarrow> Inr (map (\<lambda>x. char_of (unat x)) b)
      | PDFHexString b \<Rightarrow> Inr (bytesToHex b)
      | _ \<Rightarrow> Inl TypeError)"

section \<open>encrypt.ts\<close>

definition IV_LEN :: nat where "IV_LEN = 16"

definition encryptObject :: "platform \<Rightarrow> bytes \<Rightarrow> bytes \<Rightarrow> rng \<Rightarrow> error + bytes \<times> rng" where
  "encryptObject P data fileKey g =
     (let (iv, g') = getRandomBytes IV_LEN g in
      bindE (aes256CbcEncrypt P fileKey iv data) (\<lambda>ciphertext.
      bindE (typed_set (zeros (length iv + length ciphertext)) iv 0) (\<lambda>out1.
      bindE (typed_set out1 ciphertext (length iv)) (\<lambda>out.
      Inr (out, g')))))"

definition reservedKey :: "string \<Rightarrow> bool" where
  "reservedKey n \<longleftrightarrow> n = ''Length'' \<or> n = ''Filter'' \<or> n = ''DecodeParms''"

type_synonym encryptor = "bytes \<Rightarrow> rng \<Rightarrow> error + bytes \<times> rng"

function encryptStringsInDict ::
    "encryptor \<Rightarrow> (string \<times> pdfobj) list \<Rightarrow> rng \<Rightarrow> error + (string \<times> pdfobj) list \<times> rng"
  and encryptStringsInArray ::
    "encryptor \<Rightarrow> pdfobj list \<Rightarrow> rng \<Rightarrow> error + pdfobj list \<times> rng"
where
  "encryptStringsInDict enc [] g = Inr ([], g)"
| "encryptStringsInDict enc ((n, v) # rest) g =
     (if reservedKey n then
        bindE (encryptStringsInDict enc rest g) (\<lambda>(rest', g'). Inr ((n, v) # rest', g'))
      else
        bindE
          (case v of
             PDFString b \<Rightarrow>
               bindE (enc b g) (\<lambda>(encrypted, g'). Inr (PDFHexStringOf (bytesToHex encrypted), g'))
           | PDFHexString b \<Rightarrow>
               bindE (enc b g) (\<lambda>(encrypted, g'). Inr (PDFHexStringOf (bytesToHex encrypted), g'))
           | PDFDict d \<Rightarrow>
               bindE (encryptStringsInDict enc d g) (\<lambda>(d', g'). Inr (PDFDict d', g'))
           | PDFArray a \<Rightarrow>
               bindE (encryptStringsInArray enc a g) (\<lambda>(a', g'). Inr (PDFArray a', g'))
           | _ \<Rightarrow> Inr (v, g))
          (\<lambda>(v', g').
             bindE (encryptStringsInDict enc rest g') (\<lambda>(rest', g''). Inr ((n, v') # rest', g''))))"
| "encryptStringsInArray enc [] g = Inr ([], g)"
| "encryptStringsInArray enc (el # rest) g =
     bindE
       (case el of
          PDFDict d \<Rightarrow>
            bindE (encryptStringsInDict enc d g) (\<lambda>(d', g'). Inr (PDFDict d', g'))
        | PDFArray a \<Rightarrow>
            bindE (encryptStringsInArray enc a g) (\<lambda>(a', g'). Inr (PDFArray a', g'))
        | _ \<Rightarrow> Inr (el, g))
       (\<lambda>(el', g').
          bindE (encryptStringsInArray enc rest g') (\<lambda>(rest', g''). Inr (el' # rest', g'')))"
  by pat_completeness auto
termination
  by (relation "measure (\<lambda>x. case x of
          Inl (enc, d, g) \<Rightarrow> size_list (size_prod (\<lambda>_. 0) size) d
        | Inr (enc, a, g) \<Rightarrow> size_list size a)")
     auto

record EncryptOptions =
  opt_permissions :: "int option"
  opt_encryptMetadata :: "bool option"

text \<open>
  The test at the head of both loops over the indirect objects: a \<open>PDFDict\<close> whose
  \<open>Filter\<close> entry reads \<open>/Standard\<close> is passed over. Stream objects are not
  \<open>PDFDict\<close>s and never take the test.
\<close>

definition skipStandard :: "pdfobj \<Rightarrow> error + bool" where
  "skipStandard obj =
     (case obj of
        PDFDict d \<Rightarrow>
          (case dict_get d ''Filter'' of
             None \<Rightarrow> Inr False
           | Some filt \<Rightarrow> bindE (asString filt) (\<lambda>s. Inr (s = ''/Standard'')))
      | _ \<Rightarrow> Inr False)"

text \<open>
  The loop of \<open>encryptPDF\<close> over the enumerated indirect objects: first its body for one
  object (\<open>continue\<close> leaves the object as it is), then the iteration.
\<close>

definition encryptIndirectObject :: "encryptor \<Rightarrow> pdfobj \<Rightarrow> rng \<Rightarrow> error + pdfobj \<times> rng" where
  "encryptIndirectObject enc obj g =
     bindE (skipStandard obj) (\<lambda>skip.
       if skip then Inr (obj, g)
       else
         (case obj of
            PDFRawStream sd contents \<Rightarrow>
              bindE (enc contents g) (\<lambda>(encrypted, g'). Inr (PDFRawStream sd encrypted, g'))
          | PDFDict d \<Rightarrow>
              bindE (encryptStringsInDict enc d g) (\<lambda>(d', g'). Inr (PDFDict d', g'))
          | PDFArray a \<Rightarrow>
              bindE (encryptStringsInArray enc a g) (\<lambda>(a', g'). Inr (PDFArray a', g'))
          | _ \<Rightarrow> Inr (obj, g)))"

fun encryptIndirectObjects ::
  "encryptor \<Rightarrow> (nat \<times> pdfobj) list \<Rightarrow> rng \<Rightarrow> error + (nat \<times> pdfobj) list \<times> rng" where
  "encryptIndirectObjects enc [] g = Inr ([], g)"
| "encryptIndirectObjects enc ((r, obj) # rest) g =
     bindE (encryptIndirectObject enc obj g) (\<lambda>(obj', g').
     bindE (encryptIndirectObjects enc rest g') (\<lambda>(rest', g'').
     Inr ((r, obj') # rest', g'')))"

definition encryptDict_of :: "int \<Rightarrow> bool \<Rightarrow> Rev5Keys \<Rightarrow> pdfobj" where
  "encryptDict_of perms encMeta keys =
     (let stdCFDict = PDFDict
            [(''Type'', PDFName ''CryptFilter''),
             (''CFM'', PDFName ''AESV3''),
             (''Length'', PDFNumber 32)];
          cfDict = PDFDict [(''StdCF'', stdCFDict)]
      in PDFDict
        [(''Filter'', PDFName ''Standard''),
         (''V'', PDFNumber 5),
         (''R'', PDFNumber 5),
         (''Length'', PDFNumber 256),
         (''P'', PDFNumber (of_int perms)),
         (''O'', PDFHexStringOf (bytesToHex (rev5_O keys))),
         (''U'', PDFHexStringOf (bytesToHex (rev5_U keys))),
         (''OE'', PDFHexStringOf (bytesToHex (rev5_OE keys))),
         (''UE'', PDFHexStringOf (bytesToHex (rev5_UE keys))),
         (''Perms'', PDFHexStringOf (bytesToHex (rev5_Perms keys))),
         (''EncryptMetadata'', PDFBool encMeta),
         (''CF'', cfDict),
         (''StmF'', PDFName ''StdCF''),
         (''StrF'', PDFName ''StdCF'')])"

text \<open>
  \<open>encryptPDF\<close> on the loaded document; loading the bytes and saving the result belong to
  the document library. The result is the document that is saved.
\<close>

definition permissionsOf :: "EncryptOptions \<Rightarrow> int" where
  "permissionsOf options = (case opt_permissions options of None \<Rightarrow> - 4 | Some p \<Rightarrow> p)"

definition encryptMetadataOf :: "EncryptOptions \<Rightarrow> bool" where
  "encryptMetadataOf options \<longleftrightarrow> opt_encryptMetadata options \<noteq> Some False"

definition rev5Params :: "string \<Rightarrow> string option \<Rightarrow> EncryptOptions \<Rightarrow> Rev5EncryptParams" where
  "rev5Params userPwd ownerPwd options =
     \<lparr>userPassword = userPwd,
      ownerPassword = (case ownerPwd of None \<Rightarrow> userPwd | Some ow \<Rightarrow> ow),
      permissions = permissionsOf options,
      encryptMetadata = encryptMetadataOf options\<rparr>"

definition encryptPDF ::
  "platform \<Rightarrow> pdf_document \<Rightarrow> string \<Rightarrow> string option \<Rightarrow> EncryptOptions \<Rightarrow> rng
     \<Rightarrow> error + pdf_document \<times> rng" where
  "encryptPDF P doc userPwd ownerPwd options g =
     (let (tid, g0) =
            (case trailer_ID doc of
               None \<Rightarrow>
                 (let (fileId, g') = getRandomBytes 16 g
                  in (Some (PDFArray [PDFHexStringOf (bytesToHex fileId),
                                      PDFHexStringOf (bytesToHex fileId)]), g'))
             | Some i \<Rightarrow> (Some i, g))
      in bindE (computeRev5Keys P (rev5Params userPwd ownerPwd options) g0) (\<lambda>(keys, g1).
         bindE (encryptIndirectObjects (\<lambda>data. encryptObject P data (fileEncryptionKey keys))
                  (objects doc) g1) (\<lambda>(objs, g2).
         let (encryptRef, doc') =
               context_register (doc\<lparr>objects := objs, trailer_ID := tid\<rparr>)
                 (encryptDict_of (permissionsOf options) (encryptMetadataOf options) keys)
         in Inr (doc'\<lparr>trailer_Encrypt := Some encryptRef\<rparr>, g2))))"

section \<open>decrypt.ts\<close>

definition getEncryptBytes :: "(string \<times> pdfobj) list \<Rightarrow> string \<Rightarrow> bytes option" where
  "getEncryptBytes d key =
     (case dict_get d key of
        Some (PDFHexString b) \<Rightarrow> Some b
      | Some (PDFString b) \<Rightarrow> Some b
      | _ \<Rightarrow> None)"

definition decryptObject :: "platform \<Rightarrow> bytes \<Rightarrow> bytes \<Rightarrow> error + bytes" where
  "decryptObject P data fileKey =
     (if length data < IV_LEN + 16 then Inl ObjectTooShort
      else aes256CbcDecrypt P fileKey (take IV_LEN data) (drop IV_LEN data))"

type_synonym decryptor = "bytes \<Rightarrow> error + bytes"

text \<open>
  A string entry: shorter than 32 bytes it is left alone; otherwise it is replaced when
  \<open>dec\<close> returns and left alone when \<open>dec\<close> throws (the \<open>catch\<close> is empty).
\<close>

definition decryptStringValue :: "decryptor \<Rightarrow> pdfobj \<Rightarrow> bytes \<Rightarrow> pdfobj" where
  "decryptStringValue dec v b =
     (if length b < IV_LEN + 16 then v
      else case dec b of
             Inr decrypted \<Rightarrow> PDFHexStringOf (bytesToHex decrypted)
           | Inl e \<Rightarrow> v)"

function decryptStringsInDict :: "decryptor \<Rightarrow> (string \<times> pdfobj) list \<Rightarrow> (string \<times> pdfobj) list"
  and decryptStringsInArray :: "decryptor \<Rightarrow> pdfobj list \<Rightarrow> pdfobj list"
where
  "decryptStringsInDict dec [] = []"
| "decryptStringsInDict dec ((n, v) # rest) =
     (if reservedKey n then (n, v)
      else (n, case v of
                 PDFHexString b \<Rightarrow> decryptStringValue dec v b
               | PDFString b \<Rightarrow> decryptStringValue dec v b
               | PDFDict d \<Rightarrow> PDFDict (decryptStringsInDict dec d)
               | PDFArray a \<Rightarrow> PDFArray (decryptStringsInArray dec a)
               | _ \<Rightarrow> v))
     # decryptStringsInDict dec rest"
| "decryptStringsInArray dec [] = []"
| "decryptStringsInArray dec (el # rest) =
     (case el of
        PDFDict d \<Rightarrow> PDFDict (decryptStringsInDict dec d)
      | PDFArray a \<Rightarrow> PDFArray (decryptStringsInArray dec a)
      | _ \<Rightarrow> el)
     # decryptStringsInArray dec rest"
  by pat_completeness auto
termination
  by (relation "measure (\<lambda>x. case x of
          Inl (dec, d) \<Rightarrow> size_list (size_prod (\<lambda>_. 0) size) d
        | Inr (dec, a) \<Rightarrow> size_list size a)")
     auto

text \<open>
  The loop of \<open>decryptPDF\<close> over the enumerated indirect objects: its body for one
  object, then the iteration.
\<close>

definition decryptIndirectObject :: "decryptor \<Rightarrow> pdfobj \<Rightarrow> error + pdfobj" where
  "decryptIndirectObject dec obj =
     bindE (skipStandard obj) (\<lambda>skip.
       if skip then Inr obj
       else
         (case obj of
            PDFRawStream sd contents \<Rightarrow>
              bindE (dec contents) (\<lambda>decrypted. Inr (PDFRawStream sd decrypted))
          | PDFDict d \<Rightarrow> Inr (PDFDict (decryptStringsInDict dec d))
          | PDFArray a \<Rightarrow> Inr (PDFArray (decryptStringsInArray dec a))
          | _ \<Rightarrow> Inr obj))"

fun decryptIndirectObjects ::
  "decryptor \<Rightarrow> (nat \<times> pdfobj) list \<Rightarrow> error + (nat \<times> pdfobj) list" where
  "decryptIndirectObjects dec [] = Inr []"
| "decryptIndirectObjects dec ((r, obj) # rest) =
     bindE (decryptIndirectObject dec obj) (\<lambda>obj'.
     bindE (decryptIndirectObjects dec rest) (\<lambda>rest'.
     Inr ((r, obj') # rest')))"

definition numberOf :: "pdfobj option \<Rightarrow> real" where
  "numberOf x = (case x of Some (PDFNumber n) \<Rightarrow> n | _ \<Rightarrow> 0)"

definition decryptPDF :: "platform \<Rightarrow> pdf_document \<Rightarrow> string \<Rightarrow> error + pdf_document" where
  "decryptPDF P doc password =
     (case trailer_Encrypt doc of
        None \<Rightarrow> Inl NotEncrypted
      | Some encryptRef \<Rightarrow>
         (case context_lookup doc (Some encryptRef) of
            Some (PDFDict encryptObj) \<Rightarrow>
              (let r = numberOf (dict_lookup doc encryptObj ''R'');
                   v = numberOf (dict_lookup doc encryptObj ''V'')
               in if r \<noteq> 5 \<or> v \<noteq> 5 then Inl (UnsupportedEncryption r v)
                  else
                    (case (getEncryptBytes encryptObj ''O'', getEncryptBytes encryptObj ''U'',
                           getEncryptBytes encryptObj ''OE'', getEncryptBytes encryptObj ''UE'') of
                       (Some O_str, Some U_str, Some OE, Some UE) \<Rightarrow>
                         if length O_str \<noteq> 48 \<or> length U_str \<noteq> 48 \<or>
                            length OE \<noteq> 32 \<or> length UE \<noteq> 32
                         then Inl InvalidEncryptFields
                         else
                           (case deriveFileKeyFromPassword P password U_str O_str OE UE of
                              None \<Rightarrow> Inl WrongPassword
                            | Some fileKey \<Rightarrow>
                                bindE (decryptIndirectObjects
                                         (\<lambda>data. decryptObject P data fileKey) (objects doc))
                                  (\<lambda>objs. Inr (doc\<lparr>objects := objs, trailer_Encrypt := None\<rparr>)))
                     | _ \<Rightarrow> Inl InvalidEncryptFields))
          | _ \<Rightarrow> Inl InvalidEncryptObject))"

section \<open>Notions used to state the properties\<close>

text \<open>
  The payload content of an object: the object with every literal string read as the hex
  string of the same bytes. Two objects with the same payload content have the same
  shape, the same stream bytes and the same string bytes.
\<close>

primrec payload :: "pdfobj \<Rightarrow> pdfobj" where
  "payload PDFNull = PDFNull"
| "payload (PDFBool b) = PDFBool b"
| "payload (PDFNumber x) = PDFNumber x"
| "payload (PDFName n) = PDFName n"
| "payload (PDFString b) = PDFHexString b"
| "payload (PDFHexString b) = PDFHexString b"
| "payload (PDFRef r) = PDFRef r"
| "payload (PDFArray a) = PDFArray (map payload a)"
| "payload (PDFDict d) = PDFDict (map (map_prod id payload) d)"
| "payload (PDFRawStream d contents) = PDFRawStream (map (map_prod id payload) d) contents"

definition payloads :: "(nat \<times> pdfobj) list \<Rightarrow> (nat \<times> pdfobj) list" where
  "payloads objs = map (map_prod id payload) objs"

text \<open>
  The four bytes of a 32-bit two's-complement number, least significant first, as the
  spec words the head of the permissions block (used to state the layout).
\<close>

definition le32_bytes :: "int \<Rightarrow> bytes" where
  "le32_bytes p =
     [of_int p, of_int (p div 2 ^ 8), of_int (p div 2 ^ 16), of_int (p div 2 ^ 24)]"

text \<open>A field of the encryption descriptor the trailer points to, as \<open>decryptPDF\<close> reads it.\<close>

definition descriptor_bytes :: "pdf_document \<Rightarrow> string \<Rightarrow> bytes option" where
  "descriptor_bytes doc key =
     (case context_lookup doc (trailer_Encrypt doc) of
        Some (PDFDict d) \<Rightarrow> getEncryptBytes d key
      | _ \<Rightarrow> None)"

text \<open>
  The owner password the key derivation uses: the user password when none is given
  (\<open>ownerPassword ?? userPassword\<close> in \<open>encryptPDF\<close>) or when it is empty
  (\<open>params.ownerPassword || params.userPassword\<close> in \<open>computeRev5Keys\<close>).
\<close>

definition effectiveOwnerPassword :: "string \<Rightarrow> string option \<Rightarrow> string" where
  "effectiveOwnerPassword userPwd ownerPwd =
     (case ownerPwd of
        None \<Rightarrow> userPwd
      | Some ow \<Rightarrow> if ow \<noteq> [] then ow else userPwd)"

text \<open>
  \<open>decrypt(encrypt(D, u, o, options), pw)\<close>, the composition the spec's properties are
  stated on; saving and loading the encrypted document in between belong to the
  document library.
\<close>

definition decryptEncrypted ::
  "platform \<Rightarrow> pdf_document \<Rightarrow> string \<Rightarrow> string option \<Rightarrow> EncryptOptions \<Rightarrow> rng \<Rightarrow> string
     \<Rightarrow> error + pdf_document" where
  "decryptEncrypted P doc userPwd ownerPwd options g pw =
     bindE (encryptPDF P doc userPwd ownerPwd options g) (\<lambda>(edoc, g'). decryptPDF P edoc pw)"

text \<open>
  The structural requirement \<open>decryptPDF\<close> checks on the descriptor: the four fields are
  present as strings, \<open>O\<close> and \<open>U\<close> of 48 bytes, \<open>OE\<close> and \<open>UE\<close> of 32 bytes.
\<close>

definition fieldsWellFormed :: "(string \<times> pdfobj) list \<Rightarrow> bool" where
  "fieldsWellFormed d \<longleftrightarrow>
     map_option length (getEncryptBytes d ''O'') = Some 48 \<and>
     map_option length (getEncryptBytes d ''U'') = Some 48 \<and>
     map_option length (getEncryptBytes d ''OE'') = Some 32 \<and>
     map_option length (getEncryptBytes d ''UE'') = Some 32"

text \<open>The password matches the user or the owner validation hash of the descriptor.\<close>

definition passwordMatches :: "platform \<Rightarrow> string \<Rightarrow> (string \<times> pdfobj) list \<Rightarrow> bool" where
  "passwordMatches P pw d \<longleftrightarrow>
     (case (getEncryptBytes d ''U'', getEncryptBytes d ''O'') of
        (Some U_str, Some O_str) \<Rightarrow>
          sha256 P (preparePassword pw @ subarray U_str 32 40) = subarray U_str 0 32 \<or>
          sha256 P (preparePassword pw @ subarray O_str 32 40 @ U_str) = subarray O_str 0 32
      | _ \<Rightarrow> False)"

text \<open>The digest does not collide on the two inputs \<open>x\<close> and \<open>y\<close>.\<close>

definition no_collision :: "platform \<Rightarrow> bytes \<Rightarrow> bytes \<Rightarrow> bool" where
  "no_collision P x y \<longleftrightarrow> (sha256 P x = sha256 P y \<longrightarrow> x = y)"

text \<open>
  The errors of \<open>decryptPDF\<close> that the spec calls \<open>CorruptEncryptedData\<close>: a descriptor
  field of the wrong length, and the failures of a payload decryption.
\<close>

definition corruptEncryptedData :: "error \<Rightarrow> bool" where
  "corruptEncryptedData e \<longleftrightarrow>
     e = InvalidEncryptFields \<or> e = ObjectTooShort \<or> e = CbcCiphertextLength \<or>
     e = OperationError"

section \<open>A small platform instance\<close>

text \<open>
  An instance of the platform interface on which the model runs on concrete inputs: a
  digest with 32-byte output and a length-preserving invertible block transformation.
  It satisfies the laws of \<open>platform_ok\<close>; nothing else is claimed of it.
\<close>

definition demo_platform :: platform where
  "demo_platform =
     \<lparr>digest = (\<lambda>x. take 31 (x @ zeros 31) @ [of_nat (length x)]),
      block_enc = (\<lambda>k b. map2 (+) b (take 16 k)),
      block_dec = (\<lambda>k b. map2 (-) b (take 16 k))\<rparr>"

definition demo_rng :: rng where
  "demo_rng i = of_nat (7 * i + 3)"

definition demo_doc :: pdf_document where
  "demo_doc =
     \<lparr>objects =
        [(1, PDFDict [(''Title'', PDFString (map of_char ''Hi'')),
                      (''Kids'', PDFArray [PDFRef 2])]),
         (2, PDFRawStream [(''Length'', PDFNumber 16)] (map of_nat [1..<17]))],
      trailer_ID = None,
      trailer_Encrypt = None\<rparr>"

definition demo_options :: EncryptOptions where
  "demo_options = \<lparr>opt_permissions = None, opt_encryptMetadata = None\<rparr>"

definition demo_legacy_doc :: pdf_document where
  "demo_legacy_doc =
     \<lparr>objects =
        [(1, PDFDict [(''Filter'', PDFName ''Standard''), (''V'', PDFNumber 4),
                      (''R'', PDFNumber 4)]),
         (2, PDFRawStream [(''Length'', PDFNumber 3)] [1, 2, 3])],
      trailer_ID = None,
      trailer_Encrypt = Some (PDFRef 1)\<rparr>"

definition demo_std_doc :: pdf_document where
  "demo_std_doc =
     \<lparr>objects =
        [(1, PDFDict [(''Filter'', PDFName ''Standard''),
                      (''Note'', PDFString (map of_char ''keep''))]),
         (2, PDFRawStream [(''Filter'', PDFName ''Standard'')] (map of_nat [1..<17]))],
      trailer_ID = None,
      trailer_Encrypt = None\<rparr>"

text \<open>
  A document with a well-formed descriptor whose user record matches the password
  \<open>user123\<close> (validation and key salts all zero), and a stream of three bytes, too
  short to be an encrypted payload.
\<close>

definition demo_corrupt_descriptor :: "(string \<times> pdfobj) list" where
  "demo_corrupt_descriptor =
     [(''Filter'', PDFName ''Standard''), (''V'', PDFNumber 5), (''R'', PDFNumber 5),
      (''O'', PDFHexString (zeros 48)),
      (''U'', PDFHexString (digest demo_platform (map of_char ''user123'' @ zeros 8) @ zeros 16)),
      (''OE'', PDFHexString (zeros 32)),
      (''UE'', PDFHexString (zeros 32))]"

definition demo_corrupt_doc :: pdf_document where
  "demo_corrupt_doc =
     \<lparr>objects =
        [(1, PDFRawStream [(''Length'', PDFNumber 3)] [1, 2, 3]),
         (2, PDFDict demo_corrupt_descriptor)],
      trailer_ID = None,
      trailer_Encrypt = Some (PDFRef 2)\<rparr>"

definition demo_u127 :: string where
  "demo_u127 = replicate 127 CHR ''a''"

definition demo_w128 :: string where
  "demo_w128 = replicate 128 CHR ''a''"

definition demo_key :: bytes where
  "demo_key = map of_nat [0..<32]"

definition demo_block :: bytes where
  "demo_block = map of_nat [1..<17]"

section \<open>Basic facts\<close>

lemma bindE_Inr [simp]: "bindE (Inr x) f = f x" by (simp add: bindE_def)
lemma bindE_Inl [simp]: "bindE (Inl e) f = Inl e" by (simp add: bindE_def)

lemma chunks16_Nil [simp]: "chunks16 [] = []" by (simp add: chunks16_def)

lemma chunks16_step:
  assumes "16 \<le> length xs"
  shows "chunks16 xs = take 16 xs # chunks16 (drop 16 xs)"
proof -
  have d: "length xs div 16 = Suc ((length xs - 16) div 16)"
    using assms by (simp add: le_div_geq)
  have "[0..<Suc ((length xs - 16) div 16)] = 0 # map Suc [0..<(length xs - 16) div 16]"
    by (simp add: upt_conv_Cons map_Suc_upt del: upt_Suc)
  then show ?thesis
    by (simp add: chunks16_def d comp_def add.commute del: upt_Suc)
qed

lemma chunks16_append:
  "length b = 16 \<Longrightarrow> chunks16 (b @ xs) = b # chunks16 xs"
  by (simp add: chunks16_step)

lemma chunks16_single: "length b = 16 \<Longrightarrow> chunks16 b = [b]"
  using chunks16_append [of b "[]"] by simp

lemma chunks16_short: "length xs < 16 \<Longrightarrow> chunks16 xs = []"
  by (simp add: chunks16_def)

lemma map2_xor_zeros: "length b = 16 \<Longrightarrow> map2 (XOR) (zeros 16) b = b"
  by (simp add: zeros_def list_eq_iff_nth_eq)

lemma xor16_map2: "length a = 16 \<Longrightarrow> length b = 16 \<Longrightarrow> xor16 a b = map2 (XOR) a b"
  by (simp add: xor16_def byte_at_def list_eq_iff_nth_eq)

lemma length_xor16 [simp]: "length (xor16 a b) = 16" by (simp add: xor16_def)

lemma byte_xor_cancel: "(a::byte) XOR (a XOR b) = b"
  by (auto simp: bit_eq_iff bit_xor_iff)

lemma byte_xor_cancel2: "(b::byte) XOR (a XOR b) = a"
  by (auto simp: bit_eq_iff bit_xor_iff)

lemma xor_cancel_left: "length (a::bytes) = 16 \<Longrightarrow> length b = 16 \<Longrightarrow> map2 (XOR) a (map2 (XOR) a b) = b"
  by (simp add: list_eq_iff_nth_eq byte_xor_cancel)

lemma ecb_encrypt_block:
  assumes "cipher_ok P" "length key = 32" "length block = 16"
  shows "aes256EcbEncrypt P key block = Inr (block_enc P key block)"
proof -
  have len: "length (block_enc P key block) = 16"
    using assms by (simp add: cipher_ok_def)
  have "pkcs7_pad block = block @ replicate 16 16"
    using assms by (simp add: pkcs7_pad_def)
  then have "subtle_encrypt P key (zeros 16) block =
      block_enc P key block @ cbc_enc_blocks P key (block_enc P key block) (chunks16 (replicate 16 16))"
    using assms by (simp add: subtle_encrypt_def chunks16_append map2_xor_zeros Let_def)
  then show ?thesis
    using assms len by (simp add: aes256EcbEncrypt_def AES_BLOCK_SIZE_def KEY_LENGTH_def)
qed

lemma pkcs7_unpad_full:
  "length p1 = 16 \<Longrightarrow> pkcs7_unpad (p1 @ replicate 16 16) = Inr p1"
  by (simp add: pkcs7_unpad_def Let_def list_all_iff)

lemma ecb_decrypt_block:
  assumes "cipher_ok P" "length key = 32" "length block = 16"
  shows "aes256EcbDecrypt P key block = Inr (block_dec P key block)"
proof -
  let ?x = "xor16 FULL_PAD block"
  let ?c2 = "block_enc P key ?x"
  have c2: "aes256EcbEncrypt P key ?x = Inr ?c2"
    using assms by (simp add: ecb_encrypt_block)
  have lc2: "length ?c2 = 16" and d2: "block_dec P key ?c2 = ?x"
    and ld: "length (block_dec P key block) = 16"
    using assms by (simp_all add: cipher_ok_def)
  have t1: "typed_set (zeros 32) block 0 = Inr (block @ zeros 16)"
    using assms by (simp add: typed_set_def zeros_def)
  have t2: "typed_set (block @ zeros 16) ?c2 16 = Inr (block @ ?c2)"
    using assms lc2 by (simp add: typed_set_def zeros_def)
  have x: "?x = map2 (XOR) (replicate 16 16) block"
    using assms by (simp add: xor16_map2 FULL_PAD_def)
  have "map2 (XOR) block ?x = replicate 16 16"
    using assms unfolding x by (simp add: list_eq_iff_nth_eq byte_xor_cancel2)
  then have "cbc_dec_blocks P key (zeros 16) (chunks16 (block @ ?c2)) =
       block_dec P key block @ replicate 16 16"
    using assms lc2 ld d2 by (simp add: chunks16_append chunks16_single map2_xor_zeros)
  then have "subtle_decrypt P key (zeros 16) (block @ ?c2) = Inr (block_dec P key block)"
    using assms lc2 ld by (auto simp: subtle_decrypt_def pkcs7_unpad_full)
  then show ?thesis
    using assms c2 t1 t2
    by (simp add: aes256EcbDecrypt_def AES_BLOCK_SIZE_def KEY_LENGTH_def)
qed

lemma ecb_decrypt_node_agrees:
  assumes "cipher_ok P"
  shows "aes256EcbDecrypt_node P key block = aes256EcbDecrypt P key block"
proof (cases "length block = 16 \<and> length key = 32")
  case True
  then have "length (block_dec P key block) = 16"
    using assms by (simp add: cipher_ok_def)
  with True assms show ?thesis
    by (simp add: aes256EcbDecrypt_node_def ecb_decrypt_block chunks16_single map2_xor_zeros
        AES_BLOCK_SIZE_def KEY_LENGTH_def)
next
  case False
  then show ?thesis
    by (auto simp: aes256EcbDecrypt_node_def aes256EcbDecrypt_def AES_BLOCK_SIZE_def
        KEY_LENGTH_def)
qed

lemma demo_cipher_ok: "cipher_ok demo_platform"
  by (simp add: cipher_ok_def demo_platform_def list_eq_iff_nth_eq)

lemma demo_digest_ok: "digest_ok demo_platform"
  by (auto simp: digest_ok_def demo_platform_def zeros_def)

lemma subarray_block:
  "i + 16 \<le> length xs \<Longrightarrow> subarray xs i (i + AES_BLOCK_SIZE) = take 16 (drop i xs)"
  by (simp add: subarray_def AES_BLOCK_SIZE_def)

lemma typed_set_block:
  "length enc = 16 \<Longrightarrow> i + 16 \<le> length out \<Longrightarrow>
   typed_set out enc i = Inr (take i out @ enc @ drop (i + 16) out)"
  by (simp add: typed_set_def)

lemma block_step:
  assumes "i < (n::nat)" "(n - i) mod 16 = 0"
  shows "i + 16 \<le> n" and "(n - (i + 16)) mod 16 = 0"
proof -
  from assms(2) have "16 dvd n - i" by (simp add: mod_eq_0_iff_dvd)
  then obtain k where k: "n - i = 16 * k" by (auto simp: dvd_def)
  with assms(1) obtain k' where k': "k = Suc k'" by (cases k) auto
  from k k' show "i + 16 \<le> n" by simp
  from k k' have "n - (i + 16) = 16 * k'" by simp
  then show "(n - (i + 16)) mod 16 = 0" by simp
qed

lemma encNoPaddingLoop_blocks:
  assumes "cipher_ok P" "length key = 32"
  shows "length prev = 16 \<Longrightarrow> length out = length pt \<Longrightarrow> i \<le> length pt \<Longrightarrow>
         (length pt - i) mod 16 = 0 \<Longrightarrow>
         encNoPaddingLoop P key pt i prev out =
           Inr (take i out @ cbc_enc_blocks P key prev (chunks16 (drop i pt)))"
  using assms
proof (induction P key pt i prev out rule: encNoPaddingLoop.induct)
  case (1 P key pt i prev out)
  show ?case
  proof (cases "i < length pt")
    case False
    with "1.prems" show ?thesis
      by (subst encNoPaddingLoop.simps) simp
  next
    case True
    with "1.prems" have le: "i + 16 \<le> length pt"
      by (simp add: block_step)
    let ?b = "take 16 (drop i pt)"
    let ?c = "block_enc P key (map2 (XOR) prev ?b)"
    have lb: "length ?b = 16" using le by simp
    have lx: "length (map2 (XOR) prev ?b) = 16" using lb "1.prems" by simp
    have enc: "aes256EcbEncrypt P key (xor16 prev (subarray pt i (i + AES_BLOCK_SIZE))) = Inr ?c"
      using "1.prems" lb lx by (simp add: ecb_encrypt_block subarray_block [OF le] xor16_map2)
    have lc: "length ?c = 16"
      using "1.prems" lx by (simp add: cipher_ok_def)
    let ?out' = "take i out @ ?c @ drop (i + 16) out"
    have ts: "typed_set out ?c i = Inr ?out'"
      using lc le "1.prems" by (simp add: typed_set_block)
    have lo: "length ?out' = length pt"
      using lc le "1.prems" by simp
    have m: "(length pt - (i + 16)) mod 16 = 0"
      using True "1.prems" by (simp add: block_step)
    have ih: "encNoPaddingLoop P key pt (i + AES_BLOCK_SIZE) ?c ?out' =
        Inr (take (i + AES_BLOCK_SIZE) ?out' @
             cbc_enc_blocks P key ?c (chunks16 (drop (i + AES_BLOCK_SIZE) pt)))"
      by (rule "1.IH" [OF True])
         (simp_all add: enc ts lc lo m le "1.prems" AES_BLOCK_SIZE_def del: length_append length_take length_drop)
    have tk: "take (i + AES_BLOCK_SIZE) ?out' = take i out @ ?c"
      using lc le "1.prems" by (simp add: AES_BLOCK_SIZE_def)
    have ch: "chunks16 (drop i pt) = ?b # chunks16 (drop (i + AES_BLOCK_SIZE) pt)"
      using le by (simp add: chunks16_step [of "drop i pt"] AES_BLOCK_SIZE_def add.commute)
    have "encNoPaddingLoop P key pt i prev out =
          encNoPaddingLoop P key pt (i + AES_BLOCK_SIZE) ?c ?out'"
      by (subst encNoPaddingLoop.simps) (simp add: True enc ts)
    then show ?thesis
      using ih tk ch by (simp add: Let_def)
  qed
qed

lemma aes256CbcEncryptNoPadding_blocks:
  assumes "cipher_ok P" "length key = 32" "length iv = 16" "length pt mod 16 = 0"
  shows "aes256CbcEncryptNoPadding P key iv pt = Inr (cbc_enc_blocks P key iv (chunks16 pt))"
  using assms encNoPaddingLoop_blocks [of P key iv "zeros (length pt)" pt 0]
  by (simp add: aes256CbcEncryptNoPadding_def AES_BLOCK_SIZE_def zeros_def)


lemma xor_into_aux:
  "i + n \<le> length out \<Longrightarrow>
   fold (\<lambda>j o'. if i + j < length o' then o'[i + j := f j] else o') [0..<n] out =
     take i out @ map f [0..<n] @ drop (i + n) out"
proof (induction n)
  case 0
  then show ?case by simp
next
  case (Suc n)
  let ?mid = "take i out @ map f [0..<n] @ drop (i + n) out"
  have l: "length ?mid = length out" using Suc.prems by simp
  have d: "drop (i + n) out = out ! (i + n) # drop (i + Suc n) out"
    using Suc.prems by (simp add: Cons_nth_drop_Suc)
  have "?mid[i + n := f n] = take i out @ map f [0..<n] @ f n # drop (i + Suc n) out"
    using Suc.prems unfolding d by (simp add: list_update_append)
  then show ?case
    using Suc l by simp
qed

lemma xor_into_block:
  assumes "length prev = 16" "length dec = 16" "i + 16 \<le> length out"
  shows "xor_into out i prev dec = take i out @ map2 (XOR) prev dec @ drop (i + 16) out"
proof -
  have "map (\<lambda>j. byte_at prev j XOR byte_at dec j) [0..<16] = map2 (XOR) prev dec"
    using assms by (simp add: list_eq_iff_nth_eq byte_at_def)
  then show ?thesis
    using xor_into_aux [OF assms(3), of "\<lambda>j. byte_at prev j XOR byte_at dec j"]
    by (simp add: xor_into_def)
qed

lemma decNoPaddingLoop_blocks:
  assumes "cipher_ok P" "length key = 32"
  shows "length prev = 16 \<Longrightarrow> length out = length ct \<Longrightarrow> i \<le> length ct \<Longrightarrow>
         (length ct - i) mod 16 = 0 \<Longrightarrow>
         decNoPaddingLoop P key ct i prev out =
           Inr (take i out @ cbc_dec_blocks P key prev (chunks16 (drop i ct)))"
  using assms
proof (induction P key ct i prev out rule: decNoPaddingLoop.induct)
  case (1 P key ct i prev out)
  show ?case
  proof (cases "i < length ct")
    case False
    with "1.prems" show ?thesis
      by (subst decNoPaddingLoop.simps) simp
  next
    case True
    with "1.prems" have le: "i + 16 \<le> length ct"
      by (simp add: block_step)
    let ?c = "take 16 (drop i ct)"
    let ?d = "block_dec P key ?c"
    have lc: "length ?c = 16" using le by simp
    have sa: "subarray ct i (i + AES_BLOCK_SIZE) = ?c"
      by (rule subarray_block [OF le])
    have dec: "aes256EcbDecrypt P key ?c = Inr ?d"
      using "1.prems" lc by (simp add: ecb_decrypt_block)
    have ld: "length ?d = 16"
      using "1.prems" lc by (simp add: cipher_ok_def)
    let ?out' = "take i out @ map2 (XOR) prev ?d @ drop (i + 16) out"
    have xi: "xor_into out i prev ?d = ?out'"
      using ld le "1.prems" by (simp add: xor_into_block)
    have lo: "length ?out' = length ct"
      using ld le "1.prems" by simp
    have m: "(length ct - (i + 16)) mod 16 = 0"
      using True "1.prems" by (simp add: block_step)
    have ih: "decNoPaddingLoop P key ct (i + AES_BLOCK_SIZE) ?c ?out' =
        Inr (take (i + AES_BLOCK_SIZE) ?out' @
             cbc_dec_blocks P key ?c (chunks16 (drop (i + AES_BLOCK_SIZE) ct)))"
      unfolding xi [symmetric]
      by (rule "1.IH" [OF True sa [symmetric] ])
         (simp_all add: lc xi lo m le "1.prems" AES_BLOCK_SIZE_def del: length_append length_take length_drop)
    have tk: "take (i + AES_BLOCK_SIZE) ?out' = take i out @ map2 (XOR) prev ?d"
      using ld le "1.prems" by (simp add: AES_BLOCK_SIZE_def)
    have ch: "chunks16 (drop i ct) = ?c # chunks16 (drop (i + AES_BLOCK_SIZE) ct)"
      using le by (simp add: chunks16_step [of "drop i ct"] AES_BLOCK_SIZE_def add.commute)
    have "decNoPaddingLoop P key ct i prev out =
          decNoPaddingLoop P key ct (i + AES_BLOCK_SIZE) ?c ?out'"
      by (subst decNoPaddingLoop.simps) (simp add: True dec sa xi Let_def)
    then show ?thesis
      using ih tk ch by simp
  qed
qed

lemma aes256CbcDecryptNoPadding_blocks:
  assumes "cipher_ok P" "length key = 32" "length iv = 16" "length ct mod 16 = 0"
  shows "aes256CbcDecryptNoPadding P key iv ct = Inr (cbc_dec_blocks P key iv (chunks16 ct))"
  using assms decNoPaddingLoop_blocks [of P key iv "zeros (length ct)" ct 0]
  by (simp add: aes256CbcDecryptNoPadding_def AES_BLOCK_SIZE_def zeros_def)

lemma length_chunks16 [simp]: "length (chunks16 xs) = length xs div 16"
  by (simp add: chunks16_def)

lemma chunks16_block_length: "b \<in> set (chunks16 xs) \<Longrightarrow> length b = 16"
proof -
  assume "b \<in> set (chunks16 xs)"
  then obtain i where i: "i < length xs div 16" and b: "b = take 16 (drop (16 * i) xs)"
    by (auto simp: chunks16_def)
  have "16 * (length xs div 16) \<le> length xs" by simp
  moreover from i have "16 * Suc i \<le> 16 * (length xs div 16)" by simp
  ultimately have "16 * i + 16 \<le> length xs" by simp
  with b show ?thesis by simp
qed

lemma concat_chunks16_mult: "length xs = 16 * n \<Longrightarrow> concat (chunks16 xs) = xs"
proof (induction n arbitrary: xs)
  case 0
  then show ?case by simp
next
  case (Suc n)
  then have le: "16 \<le> length xs" by simp
  have "length (drop 16 xs) = 16 * n" using Suc.prems by simp
  then have "concat (chunks16 (drop 16 xs)) = drop 16 xs" by (rule Suc.IH)
  then show ?case by (simp add: chunks16_step [OF le])
qed

lemma concat_chunks16: "length xs mod 16 = 0 \<Longrightarrow> concat (chunks16 xs) = xs"
proof -
  assume "length xs mod 16 = 0"
  then have "length xs = 16 * (length xs div 16)"
    by (simp add: mod_eq_0_iff_dvd)
  then show ?thesis by (rule concat_chunks16_mult)
qed

lemma length_cbc_enc_blocks:
  assumes "cipher_ok P" "length key = 32"
  shows "length prev = 16 \<Longrightarrow> \<forall>b \<in> set bs. length b = 16 \<Longrightarrow>
         length (cbc_enc_blocks P key prev bs) = 16 * length bs"
proof (induction bs arbitrary: prev)
  case Nil
  then show ?case by simp
next
  case (Cons b bs)
  have "length (block_enc P key (map2 (XOR) prev b)) = 16"
    using assms Cons.prems by (simp add: cipher_ok_def)
  then show ?case using Cons by (simp add: Let_def)
qed

lemma length_cbc_dec_blocks:
  assumes "cipher_ok P" "length key = 32"
  shows "length prev = 16 \<Longrightarrow> \<forall>b \<in> set bs. length b = 16 \<Longrightarrow>
         length (cbc_dec_blocks P key prev bs) = 16 * length bs"
proof (induction bs arbitrary: prev)
  case Nil
  then show ?case by simp
next
  case (Cons b bs)
  have "length (block_dec P key b) = 16"
    using assms Cons.prems by (simp add: cipher_ok_def)
  then show ?case using Cons by simp
qed

lemma cbc_dec_enc_blocks:
  assumes "cipher_ok P" "length key = 32"
  shows "length prev = 16 \<Longrightarrow> \<forall>b \<in> set bs. length b = 16 \<Longrightarrow>
         cbc_dec_blocks P key prev (chunks16 (cbc_enc_blocks P key prev bs)) = concat bs"
proof (induction bs arbitrary: prev)
  case Nil
  then show ?case by simp
next
  case (Cons b bs)
  let ?x = "map2 (XOR) prev b"
  let ?c = "block_enc P key ?x"
  have lx: "length ?x = 16" using Cons.prems by simp
  have lc: "length ?c = 16" and dc: "block_dec P key ?c = ?x"
    using assms lx by (simp_all add: cipher_ok_def)
  have "map2 (XOR) prev ?x = b"
    using Cons.prems by (simp add: xor_cancel_left)
  moreover have "cbc_dec_blocks P key ?c (chunks16 (cbc_enc_blocks P key ?c bs)) = concat bs"
    using Cons.IH [OF lc] Cons.prems by simp
  ultimately show ?case
    using lc dc by (simp add: Let_def chunks16_append)
qed

lemma length_pkcs7_pad: "length (pkcs7_pad xs) = 16 * (length xs div 16 + 1)"
proof -
  define q r where "q = length xs div 16" and "r = length xs mod 16"
  have e: "length xs = 16 * q + r" and r: "r < 16"
    by (simp_all add: q_def r_def)
  have "length xs + (16 - r) = 16 * (q + 1)"
    using e r by simp
  then show ?thesis
    by (simp add: pkcs7_pad_def Let_def q_def r_def)
qed

lemma unat_byte_of_nat: "n \<le> 16 \<Longrightarrow> unat (of_nat n :: byte) = n"
  by (simp add: unat_of_nat)

lemma pkcs7_unpad_pad: "pkcs7_unpad (pkcs7_pad xs) = Inr xs"
proof -
  define n where "n = 16 - length xs mod 16"
  have n: "0 < n" "n \<le> 16" by (simp_all add: n_def)
  have p: "pkcs7_pad xs = xs @ replicate n (of_nat n)"
    unfolding pkcs7_pad_def Let_def n_def ..
  have u: "unat (of_nat n :: byte) = n"
    using n by (simp add: unat_byte_of_nat)
  have l: "last (xs @ replicate n (of_nat n :: byte)) = of_nat n"
    using n by simp
  show ?thesis
    unfolding p pkcs7_unpad_def l u Let_def using n by (simp add: list_all_iff)
qed

lemma subtle_decrypt_encrypt:
  assumes "cipher_ok P" "length key = 32" "length iv = 16"
  shows "subtle_decrypt P key iv (subtle_encrypt P key iv data) = Inr data"
proof -
  let ?bs = "chunks16 (pkcs7_pad data)"
  have bl: "\<forall>b \<in> set ?bs. length b = 16" by (simp add: chunks16_block_length)
  have len: "length (subtle_encrypt P key iv data) = 16 * (length data div 16 + 1)"
    using assms bl by (simp add: subtle_encrypt_def length_cbc_enc_blocks length_pkcs7_pad)
  have "cbc_dec_blocks P key iv (chunks16 (subtle_encrypt P key iv data)) = concat ?bs"
    unfolding subtle_encrypt_def using assms bl by (simp add: cbc_dec_enc_blocks)
  also have "\<dots> = pkcs7_pad data"
    by (rule concat_chunks16) (simp add: length_pkcs7_pad)
  finally have "cbc_dec_blocks P key iv (chunks16 (subtle_encrypt P key iv data)) = pkcs7_pad data" .
  moreover have "subtle_encrypt P key iv data \<noteq> []" using len by auto
  ultimately show ?thesis
    using len by (simp add: subtle_decrypt_def pkcs7_unpad_pad)
qed

lemma length_subtle_encrypt:
  assumes "cipher_ok P" "length key = 32" "length iv = 16"
  shows "length (subtle_encrypt P key iv data) = 16 * (length data div 16 + 1)"
  using assms
  by (simp add: subtle_encrypt_def length_cbc_enc_blocks length_pkcs7_pad chunks16_block_length)

lemma getRandomBytes_length [simp]: "length (fst (getRandomBytes n g)) = n"
  by (simp add: getRandomBytes_def)

lemma encryptObject_value:
  assumes "length fileKey = 32"
  shows "encryptObject P data fileKey g =
           Inr (fst (getRandomBytes 16 g) @ subtle_encrypt P fileKey (fst (getRandomBytes 16 g)) data,
                snd (getRandomBytes 16 g))"
  using assms
  by (simp add: encryptObject_def IV_LEN_def aes256CbcEncrypt_def KEY_LENGTH_def
      AES_BLOCK_SIZE_def typed_set_def zeros_def split_beta)

lemma decryptObject_encrypted:
  assumes "cipher_ok P" "length fileKey = 32" "length iv = 16"
  shows "decryptObject P (iv @ subtle_encrypt P fileKey iv data) fileKey = Inr data"
  using assms length_subtle_encrypt [OF assms, of data]
  by (simp add: decryptObject_def IV_LEN_def aes256CbcDecrypt_def KEY_LENGTH_def
      AES_BLOCK_SIZE_def subtle_decrypt_encrypt)

lemma length_demo_key [simp]: "length demo_key = 32" by (simp add: demo_key_def)
lemma length_demo_block [simp]: "length demo_block = 16" by (simp add: demo_block_def)

section \<open>The single-block mode\<close>

text \<open>
  C5. For every 32-byte key \<open>k\<close> and 16-byte block \<open>b\<close>, decrypting the unpadded
  single-block encryption of \<open>b\<close> returns \<open>b\<close>. The decryption runs on the padded
  primitive: to the ciphertext block \<open>c\<close> it appends \<open>c2\<close>, the encryption of the full
  padding block XOR \<open>c\<close>; the padded two-block decryption then yields \<open>b\<close> followed by a
  valid padding block, which the unpadding strips. The block transformation of the
  platform is assumed to be invertible on blocks (\<open>cipher_ok\<close>).
\<close>

theorem C5_single_block_inverse:
  assumes "cipher_ok P" "length k = 32" "length b = 16"
  shows "bindE (aes256EcbEncrypt P k b) (aes256EcbDecrypt P k) = Inr b \<and>
         (\<forall>c. aes256EcbEncrypt P k b = Inr c \<longrightarrow>
            (\<exists>c2. aes256EcbEncrypt P k (xor16 FULL_PAD c) = Inr c2 \<and>
                  aes256EcbDecrypt P k c = subtle_decrypt P k (zeros 16) (c @ c2) \<and>
                  cbc_dec_blocks P k (zeros 16) (chunks16 (c @ c2)) = b @ FULL_PAD \<and>
                  pkcs7_unpad (b @ FULL_PAD) = Inr b))"
proof -
  let ?c = "block_enc P k b"
  let ?x = "xor16 FULL_PAD ?c"
  let ?c2 = "block_enc P k ?x"
  have e: "aes256EcbEncrypt P k b = Inr ?c"
    using assms by (rule ecb_encrypt_block)
  have lc: "length ?c = 16" and dc: "block_dec P k ?c = b"
    using assms by (simp_all add: cipher_ok_def)
  have d: "aes256EcbDecrypt P k ?c = Inr b"
    using assms lc dc by (simp add: ecb_decrypt_block)
  have e2: "aes256EcbEncrypt P k ?x = Inr ?c2"
    using assms by (simp add: ecb_encrypt_block)
  have lc2: "length ?c2 = 16" and dc2: "block_dec P k ?c2 = ?x"
    using assms by (simp_all add: cipher_ok_def)
  have x: "map2 (XOR) ?c ?x = FULL_PAD"
    using lc by (simp add: xor16_map2 FULL_PAD_def list_eq_iff_nth_eq byte_xor_cancel2)
  have blocks: "cbc_dec_blocks P k (zeros 16) (chunks16 (?c @ ?c2)) = b @ FULL_PAD"
    using assms lc lc2 dc dc2 x
    by (simp add: chunks16_append chunks16_single map2_xor_zeros)
  have unpad: "pkcs7_unpad (b @ FULL_PAD) = Inr b"
    using assms by (simp add: FULL_PAD_def pkcs7_unpad_full)
  have "subtle_decrypt P k (zeros 16) (?c @ ?c2) = Inr b"
    using lc lc2 blocks unpad by (auto simp: subtle_decrypt_def)
  with e d e2 blocks unpad show ?thesis by simp
qed

theorem C5_single_block_inverse_witness:
  "cipher_ok demo_platform \<and> length demo_key = 32 \<and> length demo_block = 16 \<and>
   bindE (aes256EcbEncrypt demo_platform demo_key demo_block)
         (aes256EcbDecrypt demo_platform demo_key) = Inr demo_block"
  using C5_single_block_inverse [OF demo_cipher_ok, of demo_key demo_block]
  by (simp add: demo_cipher_ok)

section \<open>Payload leaves\<close>

text \<open>
  C3, as the spec states it, fails: a payload leaf of exactly 16 bytes encrypts to 48
  bytes, not 32. The IV is one block, and the padded ciphertext of a full-block
  plaintext is two blocks (the data block and the full padding block).
\<close>

theorem C3_payload_length_counterexample:
  "map_sum id (\<lambda>r. length (fst r)) (encryptObject demo_platform demo_block demo_key demo_rng)
     = Inr 48"
  by (simp add: encryptObject_value length_subtle_encrypt [OF demo_cipher_ok])

text \<open>
  C3, amended. Encrypting a payload leaf whose plaintext is exactly 16 bytes under a
  32-byte file key produces exactly 48 bytes: the 16-byte IV drawn from the entropy
  source, followed by two ciphertext blocks. Decrypting that payload under the same key
  returns the original 16 bytes.
\<close>

theorem C3_payload_sixteen_bytes:
  assumes "cipher_ok P" "length fileKey = 32" "length data = 16"
  shows "\<exists>out g'. encryptObject P data fileKey g = Inr (out, g') \<and>
           length out = 48 \<and>
           take 16 out = fst (getRandomBytes 16 g) \<and>
           decryptObject P out fileKey = Inr data"
proof -
  let ?iv = "fst (getRandomBytes 16 g)"
  have liv: "length ?iv = 16" by simp
  have "length (subtle_encrypt P fileKey ?iv data) = 32"
    using assms liv by (simp add: length_subtle_encrypt)
  moreover have "decryptObject P (?iv @ subtle_encrypt P fileKey ?iv data) fileKey = Inr data"
    using assms(1,2) liv by (rule decryptObject_encrypted)
  ultimately show ?thesis
    using assms(2) by (simp add: encryptObject_value)
qed

theorem C3_payload_sixteen_bytes_witness:
  "cipher_ok demo_platform \<and> length demo_key = 32 \<and> length demo_block = 16 \<and>
   (\<exists>out g'. encryptObject demo_platform demo_block demo_key demo_rng = Inr (out, g') \<and>
      length out = 48 \<and> decryptObject demo_platform out demo_key = Inr demo_block)"
  using C3_payload_sixteen_bytes [OF demo_cipher_ok, of demo_key demo_block demo_rng]
  by (auto simp: demo_cipher_ok)

section \<open>Key derivation\<close>

lemma length_rbytes [simp]: "length (rbytes g off n) = n"
  by (simp add: rbytes_def)

lemma getRandomBytes_first: "getRandomBytes n g = (rbytes g 0 n, \<lambda>i. g (i + n))"
  by (simp add: getRandomBytes_def rbytes_def)

lemma chunks16_all16: "\<forall>b \<in> set (chunks16 xs). length b = 16"
  by (simp add: chunks16_block_length)

lemma length_sha256: "digest_ok P \<Longrightarrow> length (sha256 P x) = 32"
  by (simp add: sha256_def digest_ok_def)

lemma length_permsBlock_of [simp]: "length (permsBlock_of p m) = 16"
  by (simp add: permsBlock_of_def Let_def zeros_def)

lemma noPadding_encrypt_key:
  assumes "cipher_ok P" "length key = 32" "length fk = 32"
  shows "aes256CbcEncryptNoPadding P key ZERO_IV fk =
           Inr (cbc_enc_blocks P key ZERO_IV (chunks16 fk))"
  using assms by (simp add: aes256CbcEncryptNoPadding_blocks ZERO_IV_def zeros_def)

lemma length_wrapped_key:
  assumes "cipher_ok P" "length key = 32" "length fk = 32"
  shows "length (cbc_enc_blocks P key ZERO_IV (chunks16 fk)) = 32"
proof -
  have "length (cbc_enc_blocks P key ZERO_IV (chunks16 fk)) = 16 * length (chunks16 fk)"
    by (rule length_cbc_enc_blocks [OF assms(1,2) _ chunks16_all16])
       (simp add: ZERO_IV_def zeros_def)
  then show ?thesis using assms(3) by simp
qed

lemma tryUnwrap_wrapped:
  assumes "cipher_ok P" "length key = 32" "length fk = 32"
  shows "tryUnwrap P key (cbc_enc_blocks P key ZERO_IV (chunks16 fk)) = Some fk"
proof -
  let ?w = "cbc_enc_blocks P key ZERO_IV (chunks16 fk)"
  have lw: "length ?w = 32" using assms by (rule length_wrapped_key)
  have iv: "length ZERO_IV = 16" by (simp add: ZERO_IV_def zeros_def)
  have "aes256CbcDecryptNoPadding P key ZERO_IV ?w =
          Inr (cbc_dec_blocks P key ZERO_IV (chunks16 ?w))"
    using assms iv lw by (simp add: aes256CbcDecryptNoPadding_blocks)
  moreover have "cbc_dec_blocks P key ZERO_IV (chunks16 ?w) = concat (chunks16 fk)"
    by (rule cbc_dec_enc_blocks [OF assms(1,2) iv chunks16_all16])
  moreover have "concat (chunks16 fk) = fk"
    using assms by (simp add: concat_chunks16)
  ultimately show ?thesis
    using assms by (simp add: tryUnwrap_def)
qed

lemma tryUnwrap_total:
  assumes "cipher_ok P" "length key = 32" "length wrapped = 32"
  shows "\<exists>k. tryUnwrap P key wrapped = Some k \<and> length k = 32"
proof -
  have iv: "length ZERO_IV = 16" by (simp add: ZERO_IV_def zeros_def)
  have "aes256CbcDecryptNoPadding P key ZERO_IV wrapped =
          Inr (cbc_dec_blocks P key ZERO_IV (chunks16 wrapped))"
    using assms iv by (simp add: aes256CbcDecryptNoPadding_blocks)
  moreover have "length (cbc_dec_blocks P key ZERO_IV (chunks16 wrapped)) =
      16 * length (chunks16 wrapped)"
    by (rule length_cbc_dec_blocks [OF assms(1,2) iv chunks16_all16])
  then have "length (cbc_dec_blocks P key ZERO_IV (chunks16 wrapped)) = 32"
    using assms(3) by simp
  ultimately show ?thesis by (simp add: tryUnwrap_def)
qed

lemma compareBytes_eq: "compareBytes a b = 0 \<longleftrightarrow> a = b"
proof (cases "length a = length b")
  case False
  then show ?thesis by (auto simp: compareBytes_def)
next
  case True
  have "list_ex (\<lambda>i. a ! i \<noteq> b ! i) [0..<length a] \<longleftrightarrow> (\<exists>i<length a. a ! i \<noteq> b ! i)"
    by (auto simp: list_ex_iff)
  also have "\<dots> \<longleftrightarrow> a \<noteq> b"
    using True by (simp add: list_eq_iff_nth_eq)
  finally show ?thesis using True by (simp add: compareBytes_def)
qed

lemma subarray_material:
  assumes "length h = 32" "length vs = 8" "length ks = 8"
  shows "subarray (h @ vs @ ks) 0 32 = h"
    and "subarray (h @ vs @ ks) 32 40 = vs"
    and "subarray (h @ vs @ ks) 40 48 = ks"
  using assms by (simp_all add: subarray_def)

lemma computeRev5Keys_value:
  assumes "platform_ok P"
  shows "computeRev5Keys P params g =
    (let userPwd = preparePassword (userPassword params);
         ownerPwd = preparePassword
           (if ownerPassword params \<noteq> [] then ownerPassword params else userPassword params);
         fileKey = rbytes g 0 32;
         userValSalt = rbytes g 32 8;  userKeySalt = rbytes g 40 8;
         ownerValSalt = rbytes g 48 8; ownerKeySalt = rbytes g 56 8;
         U_str = sha256 P (userPwd @ userValSalt) @ userValSalt @ userKeySalt
     in Inr (\<lparr>fileEncryptionKey = fileKey,
              rev5_O = sha256 P (ownerPwd @ ownerValSalt @ U_str) @ ownerValSalt @ ownerKeySalt,
              rev5_U = U_str,
              rev5_OE = cbc_enc_blocks P (sha256 P (ownerPwd @ ownerKeySalt @ U_str)) ZERO_IV
                          (chunks16 fileKey),
              rev5_UE = cbc_enc_blocks P (sha256 P (userPwd @ userKeySalt)) ZERO_IV
                          (chunks16 fileKey),
              rev5_Perms = block_enc P fileKey
                 (take 12 (permsBlock_of (permissions params) (encryptMetadata params))
                    @ rbytes g 64 4)\<rparr>,
             \<lambda>i. g (i + 68)))"
proof -
  have c: "cipher_ok P" and d: "digest_ok P"
    using assms by (simp_all add: platform_ok_def)
  have r1: "getRandomBytes 32 g = (rbytes g 0 32, \<lambda>i. g (i + 32))"
    by (simp add: getRandomBytes_def rbytes_def)
  have r2: "getRandomBytes 8 (\<lambda>i. g (i + 32)) = (rbytes g 32 8, \<lambda>i. g (i + 40))"
    by (simp add: getRandomBytes_def rbytes_def ac_simps)
  have r3: "getRandomBytes 8 (\<lambda>i. g (i + 40)) = (rbytes g 40 8, \<lambda>i. g (i + 48))"
    by (simp add: getRandomBytes_def rbytes_def ac_simps)
  have r4: "getRandomBytes 8 (\<lambda>i. g (i + 48)) = (rbytes g 48 8, \<lambda>i. g (i + 56))"
    by (simp add: getRandomBytes_def rbytes_def ac_simps)
  have r5: "getRandomBytes 8 (\<lambda>i. g (i + 56)) = (rbytes g 56 8, \<lambda>i. g (i + 64))"
    by (simp add: getRandomBytes_def rbytes_def ac_simps)
  have r6: "getRandomBytes 4 (\<lambda>i. g (i + 64)) = (rbytes g 64 4, \<lambda>i. g (i + 68))"
    by (simp add: getRandomBytes_def rbytes_def ac_simps)
  have ts: "typed_set (permsBlock_of p m) (rbytes g 64 4) 12 =
            Inr (take 12 (permsBlock_of p m) @ rbytes g 64 4)" for p m
    by (simp add: typed_set_def)
  show ?thesis
    unfolding computeRev5Keys_def Let_def r1 r2 r3 r4 r5 r6 prod.case concat_bytes_def
    by (simp add: noPadding_encrypt_key [OF c] length_sha256 [OF d] ts ecb_encrypt_block [OF c])
qed

lemma and_byte_mask: "(w :: 32 word) AND 0xFF = take_bit 8 w"
proof -
  have "(0xFF :: 32 word) = mask 8" by (simp add: mask_eq_exp_minus_1)
  then show ?thesis by (simp only: take_bit_eq_mask)
qed

lemma perm_byte:
  assumes "k \<le> 24"
  shows "(ucast (signed_drop_bit k (word_of_int p :: 32 word) AND 0xFF) :: byte) = of_int (p div 2 ^ k)"
proof (rule bit_word_eqI)
  fix n assume "n < LENGTH(8)"
  then have n: "n < 8" by simp
  let ?w = "word_of_int p :: 32 word"
  have c: "\<not> (LENGTH(32) - k \<le> n \<and> n < LENGTH(32))"
    using n assms by simp
  have s: "bit (signed_drop_bit k ?w) n \<longleftrightarrow> bit ?w (k + n)"
    by (simp only: bit_signed_drop_bit_iff c if_False)
  have kn: "k + n < LENGTH(32)" using n assms by simp
  have w: "bit ?w (k + n) \<longleftrightarrow> bit p (k + n)"
    using kn by (simp only: bit_word_of_int_iff simp_thms)
  have l: "bit (ucast (signed_drop_bit k ?w AND 0xFF) :: byte) n \<longleftrightarrow> bit p (k + n)"
    using n s w by (simp add: and_byte_mask bit_ucast_iff bit_take_bit_iff)
  have "p div 2 ^ k = drop_bit k p" by (simp add: drop_bit_eq_div)
  then have r: "bit (of_int (p div 2 ^ k) :: byte) n \<longleftrightarrow> bit p (k + n)"
    using n by (simp add: bit_of_int_iff bit_drop_bit_eq)
  show "bit (ucast (signed_drop_bit k ?w AND 0xFF) :: byte) n
      \<longleftrightarrow> bit (of_int (p div 2 ^ k) :: byte) n"
    using l r by simp
qed

lemma perm_byte0: "(ucast ((word_of_int p :: 32 word) AND 0xFF) :: byte) = of_int p"
  using perm_byte [of 0 p] by simp

lemma permsBlock_of_layout:
  "permsBlock_of p m =
     le32_bytes p @ [0xFF, 0xFF, 0xFF, 0xFF] @ [if m then 0x54 else 0x46] @ [0x61, 0x64, 0x62]
       @ [0, 0, 0, 0]"
proof -
  have z: "zeros 16 = [0,0,0,0, 0,0,0,0, 0,0,0,0, 0,0,0,0]"
    by (simp add: zeros_def numeral_eq_Suc)
  show ?thesis
    unfolding permsBlock_of_def Let_def z le32_bytes_def
    by (simp add: perm_byte perm_byte0)
qed

lemma hexValue_hexDigit_all: "list_all (\<lambda>j. hexValue (hexDigit j) = Some j) [0..<16]"
  by code_simp

lemma hexValue_hexDigit: "k < 16 \<Longrightarrow> hexValue (hexDigit k) = Some k"
  using hexValue_hexDigit_all by (simp add: list_all_iff)

lemma hex_of_byte:
  "padStart2 (toString16 (unat (b :: byte))) =
     [hexDigit (unat b div 16), hexDigit (unat b mod 16)]"
proof (cases "unat b < 16")
  case True
  then show ?thesis
    by (simp add: padStart2_def toString16_def hexDigit_def)
next
  case False
  then show ?thesis by (simp add: padStart2_def toString16_def)
qed

lemma parse_hex_of_byte:
  "of_nat (parseInt16 (hexDigit (unat (b :: byte) div 16)) (hexDigit (unat b mod 16))) = b"
proof -
  have "unat b < 2 ^ LENGTH(8)" by (rule unsigned_less)
  then have "unat b < 256" by simp
  then have h: "unat b div 16 < 16" by simp
  have l: "unat b mod 16 < 16" by simp
  have "parseInt16 (hexDigit (unat b div 16)) (hexDigit (unat b mod 16)) = unat b"
    by (simp add: parseInt16_def hexValue_hexDigit [OF h] hexValue_hexDigit [OF l])
  then show ?thesis by simp
qed

lemma hexAsBytes_bytesToHex: "hexAsBytes (bytesToHex bs) = bs"
proof (induction bs)
  case Nil
  then show ?case by (simp add: bytesToHex_def)
next
  case (Cons b bs)
  have "bytesToHex (b # bs) =
        hexDigit (unat b div 16) # hexDigit (unat b mod 16) # bytesToHex bs"
    by (simp add: bytesToHex_def hex_of_byte)
  then show ?case using Cons by (simp add: parse_hex_of_byte)
qed

lemma PDFHexStringOf_bytesToHex [simp]: "PDFHexStringOf (bytesToHex bs) = PDFHexString bs"
  by (simp add: PDFHexStringOf_def hexAsBytes_bytesToHex)

section \<open>The walkers\<close>

lemma bindE_eq_Inr: "bindE m f = Inr y \<longleftrightarrow> (\<exists>x. m = Inr x \<and> f x = Inr y)"
  by (cases m) simp_all

lemma decryptStringValue_encrypted:
  "dec c = Inr b \<Longrightarrow> 32 \<le> length c \<Longrightarrow> decryptStringValue dec v c = PDFHexString b"
  by (simp add: decryptStringValue_def IV_LEN_def)

lemma walker_roundtrip:
  assumes good: "\<And>b g. \<exists>c g'. enc b g = Inr (c, g') \<and> dec c = Inr b \<and> 32 \<le> length c"
  shows "\<exists>d' g'. encryptStringsInDict enc d g = Inr (d', g') \<and>
           map (map_prod id payload) (decryptStringsInDict dec d') = map (map_prod id payload) d \<and>
           (\<forall>k. reservedKey k \<longrightarrow> map_of d' k = map_of d k)"
    and "\<exists>a' g'. encryptStringsInArray enc a g = Inr (a', g') \<and>
           map payload (decryptStringsInArray dec a') = map payload a"
  using good
proof (induction enc d g and enc a g rule: encryptStringsInDict_encryptStringsInArray.induct)
  case (1 enc g)
  then show ?case by simp
next
  case (2 enc n v rest g)
  note good = "2.prems"
  show ?case
  proof (cases "reservedKey n")
    case True
    from "2.IH"(1) [OF True good] show ?thesis
      using True by (auto simp: id_def)
  next
    case False
    have head: "\<exists>v' g1. (case v of
             PDFString b \<Rightarrow>
               bindE (enc b g) (\<lambda>(encrypted, g'). Inr (PDFHexStringOf (bytesToHex encrypted), g'))
           | PDFHexString b \<Rightarrow>
               bindE (enc b g) (\<lambda>(encrypted, g'). Inr (PDFHexStringOf (bytesToHex encrypted), g'))
           | PDFDict d \<Rightarrow>
               bindE (encryptStringsInDict enc d g) (\<lambda>(d', g'). Inr (PDFDict d', g'))
           | PDFArray a \<Rightarrow>
               bindE (encryptStringsInArray enc a g) (\<lambda>(a', g'). Inr (PDFArray a', g'))
           | _ \<Rightarrow> Inr (v, g)) = Inr (v', g1) \<and>
          payload (case v' of
                 PDFHexString b \<Rightarrow> decryptStringValue dec v' b
               | PDFString b \<Rightarrow> decryptStringValue dec v' b
               | PDFDict d \<Rightarrow> PDFDict (decryptStringsInDict dec d)
               | PDFArray a \<Rightarrow> PDFArray (decryptStringsInArray dec a)
               | _ \<Rightarrow> v') = payload v"
    proof (cases v)
      case (PDFString b)
      from good [of b g] obtain c g1 where "enc b g = Inr (c, g1)" "dec c = Inr b" "32 \<le> length c"
        by blast
      then show ?thesis using PDFString by (simp add: decryptStringValue_encrypted)
    next
      case (PDFHexString b)
      from good [of b g] obtain c g1 where "enc b g = Inr (c, g1)" "dec c = Inr b" "32 \<le> length c"
        by blast
      then show ?thesis using PDFHexString by (simp add: decryptStringValue_encrypted)
    next
      case (PDFArray a)
      from "2.IH"(2) [OF False PDFArray good] show ?thesis
        using PDFArray by (auto simp: id_def)
    next
      case (PDFDict d)
      from "2.IH"(3) [OF False PDFDict good] show ?thesis
        using PDFDict by (auto simp: id_def)
    qed simp_all
    then obtain v' g1 where h: "(case v of
             PDFString b \<Rightarrow>
               bindE (enc b g) (\<lambda>(encrypted, g'). Inr (PDFHexStringOf (bytesToHex encrypted), g'))
           | PDFHexString b \<Rightarrow>
               bindE (enc b g) (\<lambda>(encrypted, g'). Inr (PDFHexStringOf (bytesToHex encrypted), g'))
           | PDFDict d \<Rightarrow>
               bindE (encryptStringsInDict enc d g) (\<lambda>(d', g'). Inr (PDFDict d', g'))
           | PDFArray a \<Rightarrow>
               bindE (encryptStringsInArray enc a g) (\<lambda>(a', g'). Inr (PDFArray a', g'))
           | _ \<Rightarrow> Inr (v, g)) = Inr (v', g1)"
      and p: "payload (case v' of
                 PDFHexString b \<Rightarrow> decryptStringValue dec v' b
               | PDFString b \<Rightarrow> decryptStringValue dec v' b
               | PDFDict d \<Rightarrow> PDFDict (decryptStringsInDict dec d)
               | PDFArray a \<Rightarrow> PDFArray (decryptStringsInArray dec a)
               | _ \<Rightarrow> v') = payload v"
      by blast
    from "2.IH"(4) [OF False good, of g1] obtain rest' g2 where
      r: "encryptStringsInDict enc rest g1 = Inr (rest', g2)"
      and rp: "map (map_prod id payload) (decryptStringsInDict dec rest') = map (map_prod id payload) rest"
      and rk: "\<forall>k. reservedKey k \<longrightarrow> map_of rest' k = map_of rest k"
      by blast
    show ?thesis
      using False h p r rp rk by (auto simp: id_def)
  qed
next
  case (3 enc g)
  then show ?case by simp
next
  case (4 enc el rest g)
  note good = "4.prems"
  have head: "\<exists>el' g1. (case el of
          PDFDict d \<Rightarrow>
            bindE (encryptStringsInDict enc d g) (\<lambda>(d', g'). Inr (PDFDict d', g'))
        | PDFArray a \<Rightarrow>
            bindE (encryptStringsInArray enc a g) (\<lambda>(a', g'). Inr (PDFArray a', g'))
        | _ \<Rightarrow> Inr (el, g)) = Inr (el', g1) \<and>
        payload (case el' of
            PDFDict d \<Rightarrow> PDFDict (decryptStringsInDict dec d)
          | PDFArray a \<Rightarrow> PDFArray (decryptStringsInArray dec a)
          | _ \<Rightarrow> el') = payload el"
  proof (cases el)
    case (PDFArray a)
    from "4.IH"(1) [OF PDFArray good] show ?thesis
      using PDFArray by (auto simp: id_def)
  next
    case (PDFDict d)
    from "4.IH"(2) [OF PDFDict good] show ?thesis
      using PDFDict by (auto simp: id_def)
  qed simp_all
  then obtain el' g1 where h: "(case el of
          PDFDict d \<Rightarrow>
            bindE (encryptStringsInDict enc d g) (\<lambda>(d', g'). Inr (PDFDict d', g'))
        | PDFArray a \<Rightarrow>
            bindE (encryptStringsInArray enc a g) (\<lambda>(a', g'). Inr (PDFArray a', g'))
        | _ \<Rightarrow> Inr (el, g)) = Inr (el', g1)"
    and p: "payload (case el' of
            PDFDict d \<Rightarrow> PDFDict (decryptStringsInDict dec d)
          | PDFArray a \<Rightarrow> PDFArray (decryptStringsInArray dec a)
          | _ \<Rightarrow> el') = payload el"
    by blast
  from "4.IH"(3) [OF good, of g1] obtain rest' g2 where
    r: "encryptStringsInArray enc rest g1 = Inr (rest', g2)"
    and rp: "map payload (decryptStringsInArray dec rest') = map payload rest"
    by blast
  show ?case
    using h p r rp by (auto simp: id_def)
qed

lemma reservedKey_Filter [simp]: "reservedKey ''Filter''"
  by (simp add: reservedKey_def)

lemma skipStandard_not_dict:
  "(\<And>d. obj \<noteq> PDFDict d) \<Longrightarrow> skipStandard obj = Inr False"
  by (cases obj) (auto simp: skipStandard_def)

lemma skipStandard_dict_cong:
  "map_of d' ''Filter'' = map_of d ''Filter'' \<Longrightarrow> skipStandard (PDFDict d') = skipStandard (PDFDict d)"
  by (simp add: skipStandard_def dict_get_def)

lemma object_roundtrip:
  assumes good: "\<And>b g. \<exists>c g'. enc b g = Inr (c, g') \<and> dec c = Inr b \<and> 32 \<le> length c"
    and e: "encryptIndirectObject enc obj g = Inr (obj', g')"
  shows "\<exists>obj''. decryptIndirectObject dec obj' = Inr obj'' \<and> payload obj'' = payload obj"
proof -
  from e obtain skip where sk: "skipStandard obj = Inr skip"
    by (auto simp: encryptIndirectObject_def bindE_eq_Inr)
  show ?thesis
  proof (cases skip)
    case True
    with e sk have "obj' = obj" by (simp add: encryptIndirectObject_def)
    with sk True show ?thesis by (simp add: decryptIndirectObject_def)
  next
    case False
    show ?thesis
    proof (cases obj)
      case (PDFRawStream sd contents)
      from good [of contents g] obtain c g1 where
        c: "enc contents g = Inr (c, g1)" "dec c = Inr contents" by blast
      with e sk False PDFRawStream have "obj' = PDFRawStream sd c"
        by (simp add: encryptIndirectObject_def)
      with c PDFRawStream show ?thesis
        by (simp add: decryptIndirectObject_def skipStandard_def)
    next
      case (PDFDict d)
      from walker_roundtrip(1) [of enc dec d g, OF good] obtain d' g1 where
        w: "encryptStringsInDict enc d g = Inr (d', g1)"
        "map (map_prod id payload) (decryptStringsInDict dec d') = map (map_prod id payload) d"
        "\<forall>k. reservedKey k \<longrightarrow> map_of d' k = map_of d k"
        by blast
      with e sk False PDFDict have o': "obj' = PDFDict d'"
        by (simp add: encryptIndirectObject_def)
      have "skipStandard (PDFDict d') = Inr False"
        using w(3) sk False PDFDict skipStandard_dict_cong [of d' d] by simp
      with o' w(2) PDFDict show ?thesis
        by (simp add: decryptIndirectObject_def)
    next
      case (PDFArray a)
      from walker_roundtrip(2) [of enc dec a g, OF good] obtain a' g1 where
        w: "encryptStringsInArray enc a g = Inr (a', g1)"
        "map payload (decryptStringsInArray dec a') = map payload a"
        by blast
      with e sk False PDFArray have o': "obj' = PDFArray a'"
        by (simp add: encryptIndirectObject_def)
      with w(2) PDFArray show ?thesis
        by (simp add: decryptIndirectObject_def skipStandard_def)
    qed (use e in \<open>auto simp: encryptIndirectObject_def decryptIndirectObject_def skipStandard_def\<close>)
  qed
qed

lemma objects_roundtrip:
  assumes good: "\<And>b g. \<exists>c g'. enc b g = Inr (c, g') \<and> dec c = Inr b \<and> 32 \<le> length c"
  shows "encryptIndirectObjects enc objs g = Inr (objs', g') \<Longrightarrow>
         \<exists>objs''. decryptIndirectObjects dec objs' = Inr objs'' \<and>
                  payloads objs'' = payloads objs \<and> map fst objs' = map fst objs"
proof (induction objs arbitrary: g objs' g')
  case Nil
  then show ?case by (simp add: payloads_def)
next
  case (Cons ro rest)
  obtain r obj where ro: "ro = (r, obj)" by (cases ro)
  from Cons.prems ro obtain obj' g1 rest' where
    h: "encryptIndirectObject enc obj g = Inr (obj', g1)"
    and t: "encryptIndirectObjects enc rest g1 = Inr (rest', g')"
    and o: "objs' = (r, obj') # rest'"
    by (auto simp: bindE_eq_Inr)
  from object_roundtrip [OF good h] obtain obj'' where
    d: "decryptIndirectObject dec obj' = Inr obj''" "payload obj'' = payload obj" by blast
  from Cons.IH [OF t] obtain rest'' where
    dr: "decryptIndirectObjects dec rest' = Inr rest''" "payloads rest'' = payloads rest"
      "map fst rest' = map fst rest" by blast
  show ?case
    using ro o d dr by (simp add: payloads_def)
qed

lemma decryptIndirectObjects_append:
  "decryptIndirectObjects dec (xs @ ys) =
     bindE (decryptIndirectObjects dec xs) (\<lambda>xs'.
     bindE (decryptIndirectObjects dec ys) (\<lambda>ys'. Inr (xs' @ ys')))"
proof (induction xs)
  case Nil
  show ?case by (cases "decryptIndirectObjects dec ys") simp_all
next
  case (Cons x xs)
  obtain r obj where x: "x = (r, obj)" by (cases x)
  show ?case
    unfolding x
    by (cases "decryptIndirectObject dec obj"; cases "decryptIndirectObjects dec xs";
        cases "decryptIndirectObjects dec ys") (simp_all add: Cons)
qed

section \<open>Key recovery\<close>

lemma deriveFileKeyFromPassword_char:
  "deriveFileKeyFromPassword P pw U_str O_str OE UE =
     (let pwd = preparePassword pw;
          userAttempt =
            (if sha256 P (pwd @ subarray U_str 32 40) = subarray U_str 0 32
             then tryUnwrap P (sha256 P (pwd @ subarray U_str 40 48)) UE else None)
      in case userAttempt of
           Some key \<Rightarrow> Some key
         | None \<Rightarrow>
             if sha256 P (pwd @ subarray O_str 32 40 @ U_str) = subarray O_str 0 32
             then tryUnwrap P (sha256 P (pwd @ subarray O_str 40 48 @ U_str)) OE else None)"
  by (auto simp: deriveFileKeyFromPassword_def Let_def compareBytes_eq concat_bytes_def
      split: option.splits)

lemma derive_no_match:
  assumes "sha256 P (preparePassword pw @ subarray U_str 32 40) \<noteq> subarray U_str 0 32"
    and "sha256 P (preparePassword pw @ subarray O_str 32 40 @ U_str) \<noteq> subarray O_str 0 32"
  shows "deriveFileKeyFromPassword P pw U_str O_str OE UE = None"
  using assms by (simp add: deriveFileKeyFromPassword_char Let_def)

lemma derive_user_match:
  assumes "sha256 P (preparePassword pw @ subarray U_str 32 40) = subarray U_str 0 32"
    and "tryUnwrap P (sha256 P (preparePassword pw @ subarray U_str 40 48)) UE = Some k"
  shows "deriveFileKeyFromPassword P pw U_str O_str OE UE = Some k"
  using assms by (simp add: deriveFileKeyFromPassword_char Let_def)

lemma derive_owner_match:
  assumes "sha256 P (preparePassword pw @ subarray U_str 32 40) \<noteq> subarray U_str 0 32"
    and "sha256 P (preparePassword pw @ subarray O_str 32 40 @ U_str) = subarray O_str 0 32"
    and "tryUnwrap P (sha256 P (preparePassword pw @ subarray O_str 40 48 @ U_str)) OE = Some k"
  shows "deriveFileKeyFromPassword P pw U_str O_str OE UE = Some k"
  using assms by (simp add: deriveFileKeyFromPassword_char Let_def)

lemma derive_match_total:
  assumes "platform_ok P" "length UE = 32" "length OE = 32"
    and "sha256 P (preparePassword pw @ subarray U_str 32 40) = subarray U_str 0 32 \<or>
         sha256 P (preparePassword pw @ subarray O_str 32 40 @ U_str) = subarray O_str 0 32"
  shows "\<exists>k. deriveFileKeyFromPassword P pw U_str O_str OE UE = Some k \<and> length k = 32"
proof -
  have c: "cipher_ok P" and d: "digest_ok P"
    using assms(1) by (simp_all add: platform_ok_def)
  obtain ku where ku: "tryUnwrap P (sha256 P (preparePassword pw @ subarray U_str 40 48)) UE = Some ku"
      "length ku = 32"
    using tryUnwrap_total [OF c length_sha256 [OF d] assms(2)] by blast
  obtain ko where ko: "tryUnwrap P (sha256 P (preparePassword pw @ subarray O_str 40 48 @ U_str)) OE = Some ko"
      "length ko = 32"
    using tryUnwrap_total [OF c length_sha256 [OF d] assms(3)] by blast
  show ?thesis
  proof (cases "sha256 P (preparePassword pw @ subarray U_str 32 40) = subarray U_str 0 32")
    case True
    with ku show ?thesis by (simp add: derive_user_match)
  next
    case False
    with assms(4) ko show ?thesis by (simp add: derive_owner_match)
  qed
qed

text \<open>The facts about the keys \<open>computeRev5Keys\<close> produces that the entry points rely on.\<close>

lemma computeRev5Keys_facts:
  assumes ok: "platform_ok P"
    and k: "computeRev5Keys P params g = Inr (keys, g1)"
  shows "\<exists>uvs uks ovs oks rnd.
      length uvs = 8 \<and> length uks = 8 \<and> length ovs = 8 \<and> length oks = 8 \<and> length rnd = 4 \<and>
      length (fileEncryptionKey keys) = 32 \<and>
      rev5_U keys = sha256 P (preparePassword (userPassword params) @ uvs) @ uvs @ uks \<and>
      rev5_O keys =
        sha256 P (preparePassword
            (if ownerPassword params \<noteq> [] then ownerPassword params else userPassword params)
          @ ovs @ rev5_U keys) @ ovs @ oks \<and>
      rev5_UE keys =
        cbc_enc_blocks P (sha256 P (preparePassword (userPassword params) @ uks)) ZERO_IV
          (chunks16 (fileEncryptionKey keys)) \<and>
      rev5_OE keys =
        cbc_enc_blocks P
          (sha256 P (preparePassword
              (if ownerPassword params \<noteq> [] then ownerPassword params else userPassword params)
            @ oks @ rev5_U keys)) ZERO_IV
          (chunks16 (fileEncryptionKey keys)) \<and>
      rev5_Perms keys =
        block_enc P (fileEncryptionKey keys)
          (take 12 (permsBlock_of (permissions params) (encryptMetadata params)) @ rnd) \<and>
      g1 = (\<lambda>i. g (i + 68))"
proof -
  from k [unfolded computeRev5Keys_value [OF ok] Let_def]
  have keys: "keys = \<lparr>fileEncryptionKey = rbytes g 0 32,
              rev5_O = sha256 P (preparePassword
                  (if ownerPassword params \<noteq> [] then ownerPassword params else userPassword params)
                @ rbytes g 48 8 @
                  sha256 P (preparePassword (userPassword params) @ rbytes g 32 8) @ rbytes g 32 8 @ rbytes g 40 8)
                @ rbytes g 48 8 @ rbytes g 56 8,
              rev5_U = sha256 P (preparePassword (userPassword params) @ rbytes g 32 8) @ rbytes g 32 8 @ rbytes g 40 8,
              rev5_OE = cbc_enc_blocks P (sha256 P (preparePassword
                  (if ownerPassword params \<noteq> [] then ownerPassword params else userPassword params)
                @ rbytes g 56 8 @
                  sha256 P (preparePassword (userPassword params) @ rbytes g 32 8) @ rbytes g 32 8 @ rbytes g 40 8)) ZERO_IV
                          (chunks16 (rbytes g 0 32)),
              rev5_UE = cbc_enc_blocks P (sha256 P (preparePassword (userPassword params) @ rbytes g 40 8)) ZERO_IV
                          (chunks16 (rbytes g 0 32)),
              rev5_Perms = block_enc P (rbytes g 0 32)
                 (take 12 (permsBlock_of (permissions params) (encryptMetadata params))
                    @ rbytes g 64 4)\<rparr>"
    and g1: "g1 = (\<lambda>i. g (i + 68))"
    by simp_all
  show ?thesis
    apply (rule exI [of _ "rbytes g 32 8"])
    apply (rule exI [of _ "rbytes g 40 8"])
    apply (rule exI [of _ "rbytes g 48 8"])
    apply (rule exI [of _ "rbytes g 56 8"])
    apply (rule exI [of _ "rbytes g 64 4"])
    apply (simp add: keys g1)
    done
qed

section \<open>The entry points\<close>

lemma fold_max_ge_init: "(a::nat) \<le> fold max xs a"
proof (induction xs arbitrary: a)
  case Nil
  show ?case by simp
next
  case (Cons x xs)
  have "max x a \<le> fold max xs (max x a)" by (rule Cons.IH)
  then show ?case by simp
qed

lemma fold_max_ge_elem: "x \<in> set xs \<Longrightarrow> (x::nat) \<le> fold max xs a"
proof (induction xs arbitrary: a)
  case Nil
  then show ?case by simp
next
  case (Cons y ys)
  show ?case
  proof (cases "x = y")
    case True
    have "max y a \<le> fold max ys (max y a)" by (rule fold_max_ge_init)
    with True show ?thesis by simp
  next
    case False
    with Cons.prems have "x \<in> set ys" by simp
    then show ?thesis by (simp add: Cons.IH)
  qed
qed

lemma map_of_registered:
  "map_of (objs @ [(Suc (fold max (map fst objs) 0), obj)]) (Suc (fold max (map fst objs) 0))
     = Some obj"
proof -
  let ?n = "Suc (fold max (map fst objs) 0)"
  have "?n \<notin> set (map fst objs)"
  proof
    assume "?n \<in> set (map fst objs)"
    then have "?n \<le> fold max (map fst objs) 0" by (rule fold_max_ge_elem)
    then show False by simp
  qed
  then have "map_of objs ?n = None"
    by (simp add: map_of_eq_None_iff)
  then show ?thesis by (simp add: map_add_def)
qed

lemma encryptPDF_structure:
  assumes "encryptPDF P doc u ow opts g = Inr (edoc, g')"
  shows "\<exists>keys g1 objs.
      computeRev5Keys P (rev5Params u ow opts)
         (case trailer_ID doc of None \<Rightarrow> snd (getRandomBytes 16 g) | Some i \<Rightarrow> g)
        = Inr (keys, g1) \<and>
      encryptIndirectObjects (\<lambda>data. encryptObject P data (fileEncryptionKey keys))
         (objects doc) g1 = Inr (objs, g') \<and>
      objects edoc = objs @ [(Suc (fold max (map fst objs) 0),
           encryptDict_of (permissionsOf opts) (encryptMetadataOf opts) keys)] \<and>
      trailer_Encrypt edoc = Some (PDFRef (Suc (fold max (map fst objs) 0)))"
proof (cases "trailer_ID doc")
  case None
  with assms show ?thesis
    by (auto simp: encryptPDF_def Let_def split_beta bindE_eq_Inr context_register_def
        largestObjectNumber_def)
next
  case (Some i)
  with assms show ?thesis
    by (auto simp: encryptPDF_def Let_def split_beta bindE_eq_Inr context_register_def
        largestObjectNumber_def)
qed

lemma encryptDict_fields:
  "\<exists>d. encryptDict_of p m keys = PDFDict d \<and>
       dict_get d ''Filter'' = Some (PDFName ''Standard'') \<and>
       dict_get d ''R'' = Some (PDFNumber 5) \<and>
       dict_get d ''V'' = Some (PDFNumber 5) \<and>
       getEncryptBytes d ''O'' = Some (rev5_O keys) \<and>
       getEncryptBytes d ''U'' = Some (rev5_U keys) \<and>
       getEncryptBytes d ''OE'' = Some (rev5_OE keys) \<and>
       getEncryptBytes d ''UE'' = Some (rev5_UE keys) \<and>
       getEncryptBytes d ''Perms'' = Some (rev5_Perms keys)"
  by (simp add: encryptDict_of_def dict_get_def getEncryptBytes_def)

lemma good_codec:
  assumes "cipher_ok P" "length fk = 32"
  shows "\<exists>c g'. encryptObject P b fk g = Inr (c, g') \<and> decryptObject P c fk = Inr b \<and>
                 32 \<le> length c"
proof -
  let ?iv = "fst (getRandomBytes 16 g)"
  have liv: "length ?iv = 16" by simp
  have "decryptObject P (?iv @ subtle_encrypt P fk ?iv b) fk = Inr b"
    using assms liv by (rule decryptObject_encrypted)
  moreover have "length (subtle_encrypt P fk ?iv b) = 16 * (length b div 16 + 1)"
    using assms liv by (rule length_subtle_encrypt)
  ultimately show ?thesis
    using assms(2) by (simp add: encryptObject_value)
qed

lemma decrypt_descriptor_object:
  "decryptIndirectObject dec (encryptDict_of p m keys) = Inr (encryptDict_of p m keys)"
proof -
  obtain d where d: "encryptDict_of p m keys = PDFDict d"
    "dict_get d ''Filter'' = Some (PDFName ''Standard'')"
    using encryptDict_fields [of p m keys] by blast
  show ?thesis
    unfolding d(1) by (simp add: decryptIndirectObject_def skipStandard_def d(2) asString_def)
qed

lemma decryptPDF_encrypted:
  assumes ok: "platform_ok P"
    and e: "encryptPDF P doc u ow opts g = Inr (edoc, g')"
  shows "\<exists>keys g0 g1 objs n.
      computeRev5Keys P (rev5Params u ow opts) g0 = Inr (keys, g1) \<and>
      encryptIndirectObjects (\<lambda>data. encryptObject P data (fileEncryptionKey keys))
         (objects doc) g1 = Inr (objs, g') \<and>
      objects edoc = objs @ [(n, encryptDict_of (permissionsOf opts) (encryptMetadataOf opts) keys)] \<and>
      descriptor_bytes edoc ''O'' = Some (rev5_O keys) \<and>
      descriptor_bytes edoc ''U'' = Some (rev5_U keys) \<and>
      descriptor_bytes edoc ''OE'' = Some (rev5_OE keys) \<and>
      descriptor_bytes edoc ''UE'' = Some (rev5_UE keys) \<and>
      descriptor_bytes edoc ''Perms'' = Some (rev5_Perms keys) \<and>
      (\<forall>pw. decryptPDF P edoc pw =
        (case deriveFileKeyFromPassword P pw (rev5_U keys) (rev5_O keys) (rev5_OE keys)
                (rev5_UE keys) of
           None \<Rightarrow> Inl WrongPassword
         | Some fileKey \<Rightarrow>
             bindE (decryptIndirectObjects (\<lambda>data. decryptObject P data fileKey) (objects edoc))
               (\<lambda>objs. Inr (edoc\<lparr>objects := objs, trailer_Encrypt := None\<rparr>))))"
proof -
  have c: "cipher_ok P" and dg: "digest_ok P"
    using ok by (simp_all add: platform_ok_def)
  from encryptPDF_structure [OF e] obtain keys g1 objs where
    k: "computeRev5Keys P (rev5Params u ow opts)
         (case trailer_ID doc of None \<Rightarrow> snd (getRandomBytes 16 g) | Some i \<Rightarrow> g) = Inr (keys, g1)"
    and w: "encryptIndirectObjects (\<lambda>data. encryptObject P data (fileEncryptionKey keys))
         (objects doc) g1 = Inr (objs, g')"
    and o: "objects edoc = objs @ [(Suc (fold max (map fst objs) 0),
           encryptDict_of (permissionsOf opts) (encryptMetadataOf opts) keys)]"
    and t: "trailer_Encrypt edoc = Some (PDFRef (Suc (fold max (map fst objs) 0)))"
    by blast
  let ?n = "Suc (fold max (map fst objs) 0)"
  let ?D = "encryptDict_of (permissionsOf opts) (encryptMetadataOf opts) keys"
  obtain d where d: "?D = PDFDict d"
      "dict_get d ''R'' = Some (PDFNumber 5)"
      "dict_get d ''V'' = Some (PDFNumber 5)"
      "getEncryptBytes d ''O'' = Some (rev5_O keys)"
      "getEncryptBytes d ''U'' = Some (rev5_U keys)"
      "getEncryptBytes d ''OE'' = Some (rev5_OE keys)"
      "getEncryptBytes d ''UE'' = Some (rev5_UE keys)"
      "getEncryptBytes d ''Perms'' = Some (rev5_Perms keys)"
    using encryptDict_fields [of "permissionsOf opts" "encryptMetadataOf opts" keys] by blast
  have look: "context_lookup edoc (Some (PDFRef ?n)) = Some (PDFDict d)"
    unfolding context_lookup_def o using map_of_registered [of objs ?D] d(1) by simp
  have rv: "numberOf (dict_lookup edoc d ''R'') = 5" "numberOf (dict_lookup edoc d ''V'') = 5"
    by (simp_all add: dict_lookup_def d(2,3) context_lookup_def numberOf_def)
  from computeRev5Keys_facts [OF ok k] obtain uvs uks ovs oks where
    f: "length uvs = 8" "length uks = 8" "length ovs = 8" "length oks = 8"
      "length (fileEncryptionKey keys) = 32"
      "rev5_U keys = sha256 P (preparePassword (userPassword (rev5Params u ow opts)) @ uvs) @ uvs @ uks"
      "rev5_O keys =
        sha256 P (preparePassword
            (if ownerPassword (rev5Params u ow opts) \<noteq> [] then ownerPassword (rev5Params u ow opts)
             else userPassword (rev5Params u ow opts))
          @ ovs @ rev5_U keys) @ ovs @ oks"
      "rev5_UE keys =
        cbc_enc_blocks P (sha256 P (preparePassword (userPassword (rev5Params u ow opts)) @ uks)) ZERO_IV
          (chunks16 (fileEncryptionKey keys))"
      "rev5_OE keys =
        cbc_enc_blocks P
          (sha256 P (preparePassword
              (if ownerPassword (rev5Params u ow opts) \<noteq> [] then ownerPassword (rev5Params u ow opts)
               else userPassword (rev5Params u ow opts))
            @ oks @ rev5_U keys)) ZERO_IV
          (chunks16 (fileEncryptionKey keys))"
    by blast
  have lU: "length (rev5_U keys) = 48"
    unfolding f(6) using f(1,2) by (simp add: length_sha256 [OF dg])
  have lO: "length (rev5_O keys) = 48"
    unfolding f(7) using f(3,4) by (simp add: length_sha256 [OF dg])
  have lUE: "length (rev5_UE keys) = 32"
    unfolding f(8) by (rule length_wrapped_key [OF c length_sha256 [OF dg] f(5)])
  have lOE: "length (rev5_OE keys) = 32"
    unfolding f(9) by (rule length_wrapped_key [OF c length_sha256 [OF dg] f(5)])
  have dec: "decryptPDF P edoc pw =
        (case deriveFileKeyFromPassword P pw (rev5_U keys) (rev5_O keys) (rev5_OE keys)
                (rev5_UE keys) of
           None \<Rightarrow> Inl WrongPassword
         | Some fileKey \<Rightarrow>
             bindE (decryptIndirectObjects (\<lambda>data. decryptObject P data fileKey) (objects edoc))
               (\<lambda>objs. Inr (edoc\<lparr>objects := objs, trailer_Encrypt := None\<rparr>)))" for pw
    unfolding decryptPDF_def t option.case look pdfobj.case Let_def rv d(4-7) prod.case
    by (simp add: lU lO lUE lOE)
  have desc: "descriptor_bytes edoc key = getEncryptBytes d key" for key
    by (simp add: descriptor_bytes_def t look)
  show ?thesis
    using k w o dec by (auto simp: desc d(4-8))
qed

lemma rev5Params_simps [simp]:
  "userPassword (rev5Params u ow opts) = u"
  "(if ownerPassword (rev5Params u ow opts) \<noteq> [] then ownerPassword (rev5Params u ow opts)
    else userPassword (rev5Params u ow opts)) = effectiveOwnerPassword u ow"
  "permissions (rev5Params u ow opts) = permissionsOf opts"
  "encryptMetadata (rev5Params u ow opts) = encryptMetadataOf opts"
  by (auto simp: rev5Params_def effectiveOwnerPassword_def split: option.splits)

lemma recover_after_compute:
  assumes ok: "platform_ok P"
    and k: "computeRev5Keys P (rev5Params u ow opts) g = Inr (keys, g1)"
  shows "preparePassword pw = preparePassword u \<Longrightarrow>
           deriveFileKeyFromPassword P pw (rev5_U keys) (rev5_O keys) (rev5_OE keys) (rev5_UE keys)
             = Some (fileEncryptionKey keys)"
    and "preparePassword pw = preparePassword (effectiveOwnerPassword u ow) \<Longrightarrow>
         no_collision P (preparePassword pw @ subarray (rev5_U keys) 32 40)
                        (preparePassword u @ subarray (rev5_U keys) 32 40) \<Longrightarrow>
           deriveFileKeyFromPassword P pw (rev5_U keys) (rev5_O keys) (rev5_OE keys) (rev5_UE keys)
             = Some (fileEncryptionKey keys)"
    and "preparePassword pw \<noteq> preparePassword u \<Longrightarrow>
         preparePassword pw \<noteq> preparePassword (effectiveOwnerPassword u ow) \<Longrightarrow>
         no_collision P (preparePassword pw @ subarray (rev5_U keys) 32 40)
                        (preparePassword u @ subarray (rev5_U keys) 32 40) \<Longrightarrow>
         no_collision P (preparePassword pw @ subarray (rev5_O keys) 32 40 @ rev5_U keys)
                        (preparePassword (effectiveOwnerPassword u ow)
                           @ subarray (rev5_O keys) 32 40 @ rev5_U keys) \<Longrightarrow>
           deriveFileKeyFromPassword P pw (rev5_U keys) (rev5_O keys) (rev5_OE keys) (rev5_UE keys)
             = None"
proof -
  have c: "cipher_ok P" and dg: "digest_ok P"
    using ok by (simp_all add: platform_ok_def)
  let ?upw = "preparePassword u"
  let ?opw = "preparePassword (effectiveOwnerPassword u ow)"
  let ?fk = "fileEncryptionKey keys"
  from computeRev5Keys_facts [OF ok k] obtain uvs uks ovs oks where
    l: "length uvs = 8" "length uks = 8" "length ovs = 8" "length oks = 8"
    and lfk: "length ?fk = 32"
    and U: "rev5_U keys = sha256 P (?upw @ uvs) @ uvs @ uks"
    and O: "rev5_O keys = sha256 P (?opw @ ovs @ rev5_U keys) @ ovs @ oks"
    and UE: "rev5_UE keys = cbc_enc_blocks P (sha256 P (?upw @ uks)) ZERO_IV (chunks16 ?fk)"
    and OE: "rev5_OE keys =
        cbc_enc_blocks P (sha256 P (?opw @ oks @ rev5_U keys)) ZERO_IV (chunks16 ?fk)"
    by (auto simp: rev5Params_simps)
  have sU: "subarray (rev5_U keys) 0 32 = sha256 P (?upw @ uvs)"
      "subarray (rev5_U keys) 32 40 = uvs" "subarray (rev5_U keys) 40 48 = uks"
    unfolding U by (rule subarray_material [OF length_sha256 [OF dg] l(1,2)])+
  have sO: "subarray (rev5_O keys) 0 32 = sha256 P (?opw @ ovs @ rev5_U keys)"
      "subarray (rev5_O keys) 32 40 = ovs" "subarray (rev5_O keys) 40 48 = oks"
    by (subst O, rule subarray_material [OF length_sha256 [OF dg] l(3,4)])+
  have wU: "tryUnwrap P (sha256 P (?upw @ uks)) (rev5_UE keys) = Some ?fk"
    unfolding UE by (rule tryUnwrap_wrapped [OF c length_sha256 [OF dg] lfk])
  have wO: "tryUnwrap P (sha256 P (?opw @ oks @ rev5_U keys)) (rev5_OE keys) = Some ?fk"
    by (subst OE, rule tryUnwrap_wrapped [OF c length_sha256 [OF dg] lfk])
  show user: "deriveFileKeyFromPassword P pw (rev5_U keys) (rev5_O keys) (rev5_OE keys) (rev5_UE keys)
             = Some ?fk" if "preparePassword pw = ?upw" for pw
    by (rule derive_user_match) (simp_all add: that sU wU)
  show "deriveFileKeyFromPassword P pw (rev5_U keys) (rev5_O keys) (rev5_OE keys) (rev5_UE keys)
             = Some ?fk"
    if p: "preparePassword pw = ?opw"
      and nc: "no_collision P (preparePassword pw @ subarray (rev5_U keys) 32 40)
                        (?upw @ subarray (rev5_U keys) 32 40)"
  proof (cases "sha256 P (preparePassword pw @ uvs) = sha256 P (?upw @ uvs)")
    case True
    with nc have "preparePassword pw = ?upw" by (simp add: no_collision_def sU)
    then show ?thesis by (rule user)
  next
    case False
    show ?thesis
      by (rule derive_owner_match) (use False p in \<open>simp_all add: sU sO wO\<close>)
  qed
  show "deriveFileKeyFromPassword P pw (rev5_U keys) (rev5_O keys) (rev5_OE keys) (rev5_UE keys)
             = None"
    if "preparePassword pw \<noteq> ?upw" "preparePassword pw \<noteq> ?opw"
      and "no_collision P (preparePassword pw @ subarray (rev5_U keys) 32 40)
                        (?upw @ subarray (rev5_U keys) 32 40)"
      and "no_collision P (preparePassword pw @ subarray (rev5_O keys) 32 40 @ rev5_U keys)
                        (?opw @ subarray (rev5_O keys) 32 40 @ rev5_U keys)"
    by (rule derive_no_match) (use that in \<open>auto simp: no_collision_def sU sO\<close>)
qed

lemma demo_platform_ok: "platform_ok demo_platform"
  by (simp add: platform_ok_def demo_cipher_ok demo_digest_ok)

lemma decrypt_recovers_payloads:
  assumes ok: "platform_ok P"
    and e: "encryptPDF P doc u ow opts g = Inr (edoc, g')"
    and m: "preparePassword pw = preparePassword u \<or>
            (preparePassword pw = preparePassword (effectiveOwnerPassword u ow) \<and>
             (\<forall>U_str. descriptor_bytes edoc ''U'' = Some U_str \<longrightarrow>
                no_collision P (preparePassword pw @ subarray U_str 32 40)
                               (preparePassword u @ subarray U_str 32 40)))"
  shows "\<exists>ddoc. decryptPDF P edoc pw = Inr ddoc \<and>
           payloads (take (length (objects doc)) (objects ddoc)) = payloads (objects doc) \<and>
           trailer_Encrypt ddoc = None"
proof -
  have c: "cipher_ok P" using ok by (simp add: platform_ok_def)
  from decryptPDF_encrypted [OF ok e] obtain keys g0 g1 objs n where
    k: "computeRev5Keys P (rev5Params u ow opts) g0 = Inr (keys, g1)"
    and w: "encryptIndirectObjects (\<lambda>data. encryptObject P data (fileEncryptionKey keys))
         (objects doc) g1 = Inr (objs, g')"
    and o: "objects edoc = objs @ [(n, encryptDict_of (permissionsOf opts) (encryptMetadataOf opts) keys)]"
    and dU: "descriptor_bytes edoc ''U'' = Some (rev5_U keys)"
    and dec: "\<And>pw. decryptPDF P edoc pw =
        (case deriveFileKeyFromPassword P pw (rev5_U keys) (rev5_O keys) (rev5_OE keys)
                (rev5_UE keys) of
           None \<Rightarrow> Inl WrongPassword
         | Some fileKey \<Rightarrow>
             bindE (decryptIndirectObjects (\<lambda>data. decryptObject P data fileKey) (objects edoc))
               (\<lambda>objs. Inr (edoc\<lparr>objects := objs, trailer_Encrypt := None\<rparr>)))"
    by blast
  let ?fk = "fileEncryptionKey keys"
  have lfk: "length ?fk = 32"
    using computeRev5Keys_facts [OF ok k] by blast
  have key: "deriveFileKeyFromPassword P pw (rev5_U keys) (rev5_O keys) (rev5_OE keys)
                (rev5_UE keys) = Some ?fk"
    using m
  proof
    assume "preparePassword pw = preparePassword u"
    then show ?thesis by (rule recover_after_compute(1) [OF ok k])
  next
    assume a: "preparePassword pw = preparePassword (effectiveOwnerPassword u ow) \<and>
             (\<forall>U_str. descriptor_bytes edoc ''U'' = Some U_str \<longrightarrow>
                no_collision P (preparePassword pw @ subarray U_str 32 40)
                               (preparePassword u @ subarray U_str 32 40))"
    then have "no_collision P (preparePassword pw @ subarray (rev5_U keys) 32 40)
                               (preparePassword u @ subarray (rev5_U keys) 32 40)"
      using dU by blast
    with a show ?thesis by (simp add: recover_after_compute(2) [OF ok k])
  qed
  have good: "\<exists>c g'. encryptObject P b ?fk g = Inr (c, g') \<and> decryptObject P c ?fk = Inr b \<and>
                 32 \<le> length c" for b g
    by (rule good_codec [OF c lfk])
  from objects_roundtrip [of "\<lambda>data. encryptObject P data ?fk" "\<lambda>data. decryptObject P data ?fk",
      OF good w]
  obtain objs'' where
    r: "decryptIndirectObjects (\<lambda>data. decryptObject P data ?fk) objs = Inr objs''"
      "payloads objs'' = payloads (objects doc)"
    by blast
  have len: "length objs'' = length (objects doc)"
    using r(2) by (metis length_map payloads_def)
  have all: "decryptIndirectObjects (\<lambda>data. decryptObject P data ?fk) (objects edoc) =
      Inr (objs'' @ [(n, encryptDict_of (permissionsOf opts) (encryptMetadataOf opts) keys)])"
    unfolding o decryptIndirectObjects_append
    by (simp add: r(1) decrypt_descriptor_object)
  show ?thesis
    by (simp add: dec key all len r(2))
qed

lemma decrypt_rejects_password:
  assumes ok: "platform_ok P"
    and e: "encryptPDF P doc u ow opts g = Inr (edoc, g')"
    and n1: "preparePassword w \<noteq> preparePassword u"
    and n2: "preparePassword w \<noteq> preparePassword (effectiveOwnerPassword u ow)"
    and nc: "\<forall>U_str O_str.
        descriptor_bytes edoc ''U'' = Some U_str \<and> descriptor_bytes edoc ''O'' = Some O_str \<longrightarrow>
          no_collision P (preparePassword w @ subarray U_str 32 40)
                         (preparePassword u @ subarray U_str 32 40) \<and>
          no_collision P (preparePassword w @ subarray O_str 32 40 @ U_str)
                         (preparePassword (effectiveOwnerPassword u ow)
                            @ subarray O_str 32 40 @ U_str)"
  shows "decryptPDF P edoc w = Inl WrongPassword"
proof -
  from decryptPDF_encrypted [OF ok e] obtain keys g0 g1 where
    k: "computeRev5Keys P (rev5Params u ow opts) g0 = Inr (keys, g1)"
    and dO: "descriptor_bytes edoc ''O'' = Some (rev5_O keys)"
    and dU: "descriptor_bytes edoc ''U'' = Some (rev5_U keys)"
    and dec: "\<And>pw. decryptPDF P edoc pw =
        (case deriveFileKeyFromPassword P pw (rev5_U keys) (rev5_O keys) (rev5_OE keys)
                (rev5_UE keys) of
           None \<Rightarrow> Inl WrongPassword
         | Some fileKey \<Rightarrow>
             bindE (decryptIndirectObjects (\<lambda>data. decryptObject P data fileKey) (objects edoc))
               (\<lambda>objs. Inr (edoc\<lparr>objects := objs, trailer_Encrypt := None\<rparr>)))"
    by blast
  from nc dO dU have
    "no_collision P (preparePassword w @ subarray (rev5_U keys) 32 40)
                    (preparePassword u @ subarray (rev5_U keys) 32 40)"
    "no_collision P (preparePassword w @ subarray (rev5_O keys) 32 40 @ rev5_U keys)
                    (preparePassword (effectiveOwnerPassword u ow)
                       @ subarray (rev5_O keys) 32 40 @ rev5_U keys)"
    by blast+
  with n1 n2 have "deriveFileKeyFromPassword P w (rev5_U keys) (rev5_O keys) (rev5_OE keys)
                (rev5_UE keys) = None"
    by (rule recover_after_compute(3) [OF ok k])
  then show ?thesis by (simp add: dec)
qed

lemma encryptIndirectObject_total:
  assumes good: "\<And>b g. \<exists>c g'. enc b g = Inr (c, g') \<and> (dec :: decryptor) c = Inr b \<and> 32 \<le> length c"
    and s: "skipStandard obj = Inr skip"
  shows "\<exists>obj' g'. encryptIndirectObject enc obj g = Inr (obj', g')"
proof (cases skip)
  case True
  with s show ?thesis by (simp add: encryptIndirectObject_def)
next
  case False
  show ?thesis
  proof (cases obj)
    case (PDFRawStream sd contents)
    from good [of contents g] show ?thesis
      using s False PDFRawStream by (auto simp: encryptIndirectObject_def)
  next
    case (PDFDict d)
    from walker_roundtrip(1) [of enc dec d g, OF good] show ?thesis
      using s False PDFDict by (auto simp: encryptIndirectObject_def)
  next
    case (PDFArray a)
    from walker_roundtrip(2) [of enc dec a g, OF good] show ?thesis
      using s False PDFArray by (auto simp: encryptIndirectObject_def)
  qed (use s False in \<open>auto simp: encryptIndirectObject_def\<close>)
qed

lemma encryptIndirectObjects_total:
  assumes good: "\<And>b g. \<exists>c g'. enc b g = Inr (c, g') \<and> (dec :: decryptor) c = Inr b \<and> 32 \<le> length c"
  shows "\<forall>ro \<in> set objs. \<exists>skip. skipStandard (snd ro) = Inr skip \<Longrightarrow>
         \<exists>objs' g'. encryptIndirectObjects enc objs g = Inr (objs', g')"
proof (induction objs arbitrary: g)
  case Nil
  show ?case by simp
next
  case (Cons ro rest)
  obtain r obj where ro: "ro = (r, obj)" by (cases ro)
  from Cons.prems ro obtain skip where "skipStandard obj = Inr skip" by auto
  from encryptIndirectObject_total [where enc = enc and dec = dec and g = g, OF good this] obtain obj' g1 where
    h: "encryptIndirectObject enc obj g = Inr (obj', g1)" by blast
  from Cons.IH [of g1] Cons.prems obtain rest' g2 where
    t: "encryptIndirectObjects enc rest g1 = Inr (rest', g2)" by auto
  show ?case using ro h t by simp
qed

lemma encryptPDF_total:
  assumes ok: "platform_ok P"
    and s: "\<forall>ro \<in> set (objects doc). \<exists>skip. skipStandard (snd ro) = Inr skip"
  shows "\<exists>edoc g'. encryptPDF P doc u ow opts g = Inr (edoc, g')"
proof -
  have c: "cipher_ok P" using ok by (simp add: platform_ok_def)
  let ?g0 = "case trailer_ID doc of None \<Rightarrow> snd (getRandomBytes 16 g) | Some i \<Rightarrow> g"
  obtain keys g1 where k: "computeRev5Keys P (rev5Params u ow opts) ?g0 = Inr (keys, g1)"
    by (simp add: computeRev5Keys_value [OF ok] Let_def)
  let ?fk = "fileEncryptionKey keys"
  have lfk: "length ?fk = 32"
    using computeRev5Keys_facts [OF ok k] by blast
  have good: "\<exists>c g'. encryptObject P b ?fk g = Inr (c, g') \<and> decryptObject P c ?fk = Inr b \<and>
                 32 \<le> length c" for b g
    by (rule good_codec [OF c lfk])
  from encryptIndirectObjects_total [where enc = "\<lambda>data. encryptObject P data ?fk"
      and dec = "\<lambda>data. decryptObject P data ?fk" and g = g1, OF good s]
  obtain objs g2 where
    w: "encryptIndirectObjects (\<lambda>data. encryptObject P data ?fk) (objects doc) g1 = Inr (objs, g2)"
    by blast
  show ?thesis
  proof (cases "trailer_ID doc")
    case None
    with k w show ?thesis
      by (simp add: encryptPDF_def Let_def split_beta context_register_def)
  next
    case (Some i)
    with k w show ?thesis
      by (simp add: encryptPDF_def Let_def split_beta context_register_def)
  qed
qed

section \<open>Facts about the small platform instance and the sample inputs\<close>

lemma byte_of_nat_shift:
  assumes "0 < d" "d < 256"
  shows "(of_nat (n + d) :: byte) \<noteq> of_nat n"
proof
  assume "(of_nat (n + d) :: byte) = of_nat n"
  then have "(of_nat d :: byte) = 0" by simp
  then have "unat (of_nat d :: byte) = 0" by simp
  then show False using assms by (simp add: unat_of_nat)
qed

lemma demo_no_collision:
  assumes "length x = length y + d \<or> length y = length x + d" "0 < d" "d < 256"
  shows "no_collision demo_platform x y"
proof -
  have "(of_nat (length x) :: byte) \<noteq> of_nat (length y)"
    using assms byte_of_nat_shift [of d "length y"] byte_of_nat_shift [of d "length x"]
    by (metis)
  then show ?thesis
    by (auto simp: no_collision_def sha256_def demo_platform_def)
qed

lemma length_differs: "length (a :: string) \<noteq> length b \<Longrightarrow> a \<noteq> b"
proof
  assume "length a \<noteq> length b" and "a = b"
  then show False by simp
qed

lemma demo_doc_skip:
  "\<forall>ro \<in> set (objects demo_doc). \<exists>skip. skipStandard (snd ro) = Inr skip"
  by (auto simp: demo_doc_def skipStandard_def dict_get_def)

lemma preparePassword_short:
  "length p \<le> 127 \<Longrightarrow> preparePassword p = map of_char p"
  by (simp add: preparePassword_def TextEncoder_encode_def MAX_PASSWORD_UTF8_BYTES_def)

lemma length_preparePassword_short:
  "length p \<le> 127 \<Longrightarrow> length (preparePassword p) = length p"
  by (simp add: preparePassword_short)

lemma preparePassword_truncates: "preparePassword demo_w128 = preparePassword demo_u127"
  by (simp add: preparePassword_def TextEncoder_encode_def MAX_PASSWORD_UTF8_BYTES_def
      demo_w128_def demo_u127_def)

section \<open>Round trip\<close>

text \<open>
  C1, as the spec states it, fails for an empty owner password: the key derivation
  replaces an empty owner password by the user password, so the document encrypted with
  user password \<open>user123\<close> and owner password \<open>''\<close> is not opened by \<open>''\<close>.
\<close>

theorem C1_empty_owner_counterexample:
  "decryptEncrypted demo_platform demo_doc ''user123'' (Some '''') demo_options demo_rng ''''
     = Inl WrongPassword"
proof -
  obtain edoc g' where
    e: "encryptPDF demo_platform demo_doc ''user123'' (Some '''') demo_options demo_rng = Inr (edoc, g')"
    using encryptPDF_total [OF demo_platform_ok demo_doc_skip] by blast
  have "decryptPDF demo_platform edoc '''' = Inl WrongPassword"
  proof (rule decrypt_rejects_password [OF demo_platform_ok e])
    show "preparePassword '''' \<noteq> preparePassword ''user123''"
      by (simp add: preparePassword_short)
    show "preparePassword '''' \<noteq> preparePassword (effectiveOwnerPassword ''user123'' (Some ''''))"
      by (simp add: preparePassword_short effectiveOwnerPassword_def)
    show "\<forall>U_str O_str.
        descriptor_bytes edoc ''U'' = Some U_str \<and> descriptor_bytes edoc ''O'' = Some O_str \<longrightarrow>
          no_collision demo_platform (preparePassword '''' @ subarray U_str 32 40)
                         (preparePassword ''user123'' @ subarray U_str 32 40) \<and>
          no_collision demo_platform (preparePassword '''' @ subarray O_str 32 40 @ U_str)
                         (preparePassword (effectiveOwnerPassword ''user123'' (Some ''''))
                            @ subarray O_str 32 40 @ U_str)"
      by (intro allI impI conjI demo_no_collision [where d = 7])
         (simp_all add: preparePassword_short effectiveOwnerPassword_def)
  qed
  with e show ?thesis by (simp add: decryptEncrypted_def)
qed

text \<open>
  C1, amended. Let \<open>encryptPDF(D, u, o, options)\<close> return the document \<open>E\<close>, on a platform
  whose block transformation is invertible and whose digest has 32 bytes. Decrypting
  \<open>E\<close> with \<open>u\<close> returns a document whose objects, those of \<open>D\<close> in order, have the payload
  contents of \<open>D\<close> (stream bytes and string bytes); the same holds when decrypting with
  the owner password \<open>o\<close>, provided \<open>o\<close> is not empty and the digest of \<open>o\<close> with the user
  validation salt does not collide with that of \<open>u\<close>.
\<close>

theorem C1_round_trip:
  assumes "platform_ok P"
    and "encryptPDF P doc u ow opts g = Inr (edoc, g')"
    and "pw = u \<or>
         (ow = Some pw \<and> pw \<noteq> [] \<and>
          (\<forall>U_str. descriptor_bytes edoc ''U'' = Some U_str \<longrightarrow>
             no_collision P (preparePassword pw @ subarray U_str 32 40)
                            (preparePassword u @ subarray U_str 32 40)))"
  shows "\<exists>ddoc. decryptPDF P edoc pw = Inr ddoc \<and>
           payloads (take (length (objects doc)) (objects ddoc)) = payloads (objects doc) \<and>
           trailer_Encrypt ddoc = None"
proof (rule decrypt_recovers_payloads [OF assms(1,2)])
  from assms(3)
  show "preparePassword pw = preparePassword u \<or>
            (preparePassword pw = preparePassword (effectiveOwnerPassword u ow) \<and>
             (\<forall>U_str. descriptor_bytes edoc ''U'' = Some U_str \<longrightarrow>
                no_collision P (preparePassword pw @ subarray U_str 32 40)
                               (preparePassword u @ subarray U_str 32 40)))"
    by (auto simp: effectiveOwnerPassword_def)
qed

theorem C1_round_trip_witness:
  "platform_ok demo_platform \<and>
   (\<exists>edoc g'.
      encryptPDF demo_platform demo_doc ''user123'' (Some ''owner456'') demo_options demo_rng
        = Inr (edoc, g') \<and>
      (\<exists>ddoc. decryptPDF demo_platform edoc ''user123'' = Inr ddoc \<and>
         payloads (take (length (objects demo_doc)) (objects ddoc)) = payloads (objects demo_doc)) \<and>
      (\<exists>ddoc. decryptPDF demo_platform edoc ''owner456'' = Inr ddoc \<and>
         payloads (take (length (objects demo_doc)) (objects ddoc)) = payloads (objects demo_doc)))"
proof -
  obtain edoc g' where
    e: "encryptPDF demo_platform demo_doc ''user123'' (Some ''owner456'') demo_options demo_rng
          = Inr (edoc, g')"
    using encryptPDF_total [OF demo_platform_ok demo_doc_skip] by blast
  have nc: "\<forall>U_str. descriptor_bytes edoc ''U'' = Some U_str \<longrightarrow>
             no_collision demo_platform (preparePassword ''owner456'' @ subarray U_str 32 40)
                            (preparePassword ''user123'' @ subarray U_str 32 40)"
    by (intro allI impI demo_no_collision [where d = 1]) (simp_all add: preparePassword_short)
  have "\<exists>ddoc. decryptPDF demo_platform edoc ''user123'' = Inr ddoc \<and>
         payloads (take (length (objects demo_doc)) (objects ddoc)) = payloads (objects demo_doc) \<and>
         trailer_Encrypt ddoc = None"
    by (rule C1_round_trip [OF demo_platform_ok e]) simp
  moreover have "\<exists>ddoc. decryptPDF demo_platform edoc ''owner456'' = Inr ddoc \<and>
         payloads (take (length (objects demo_doc)) (objects ddoc)) = payloads (objects demo_doc) \<and>
         trailer_Encrypt ddoc = None"
    by (rule C1_round_trip [OF demo_platform_ok e]) (simp add: nc)
  ultimately show ?thesis
    using e demo_platform_ok by blast
qed

section \<open>Wrong password\<close>

text \<open>
  C2, as the spec states it, fails for long passwords: a password is cut to its first 127
  bytes, so the 128-byte password \<open>a\<dots>a\<close> differs from the 127-byte user password
  \<open>a\<dots>a\<close> and from the owner password, and still opens the document.
\<close>

theorem C2_truncated_password_counterexample:
  "demo_w128 \<noteq> demo_u127 \<and> demo_w128 \<noteq> ''owner456'' \<and>
   decryptEncrypted demo_platform demo_doc demo_u127 (Some ''owner456'') demo_options demo_rng
     demo_w128 \<noteq> Inl WrongPassword"
proof -
  obtain edoc g' where
    e: "encryptPDF demo_platform demo_doc demo_u127 (Some ''owner456'') demo_options demo_rng
          = Inr (edoc, g')"
    using encryptPDF_total [OF demo_platform_ok demo_doc_skip] by blast
  have "\<exists>ddoc. decryptPDF demo_platform edoc demo_w128 = Inr ddoc \<and>
         payloads (take (length (objects demo_doc)) (objects ddoc)) = payloads (objects demo_doc) \<and>
         trailer_Encrypt ddoc = None"
    by (rule decrypt_recovers_payloads [OF demo_platform_ok e])
       (simp add: preparePassword_truncates)
  then have "decryptEncrypted demo_platform demo_doc demo_u127 (Some ''owner456'') demo_options
      demo_rng demo_w128 \<noteq> Inl WrongPassword"
    using e by (auto simp: decryptEncrypted_def)
  moreover have "demo_w128 \<noteq> demo_u127"
    by (rule length_differs) (simp add: demo_w128_def demo_u127_def)
  moreover have "demo_w128 \<noteq> ''owner456''"
    by (rule length_differs) (simp add: demo_w128_def)
  ultimately show ?thesis by blast
qed

text \<open>
  C2, amended. Let \<open>encryptPDF(D, u, o)\<close> return the document \<open>E\<close>, and let \<open>w\<close> be a password
  whose prepared form (the first 127 bytes of its UTF-8 text) differs from that of \<open>u\<close>
  and from that of the owner password in force (\<open>o\<close>, or \<open>u\<close> when \<open>o\<close> is absent or
  empty). If the digest does not collide between \<open>w\<close> and the user password on the user
  validation input, nor between \<open>w\<close> and the owner password on the owner validation
  input, then decrypting \<open>E\<close> with \<open>w\<close> fails with \<open>WrongPassword\<close>.
\<close>

theorem C2_wrong_password:
  assumes "platform_ok P"
    and "encryptPDF P doc u ow opts g = Inr (edoc, g')"
    and "preparePassword w \<noteq> preparePassword u"
    and "preparePassword w \<noteq> preparePassword (effectiveOwnerPassword u ow)"
    and "\<forall>U_str O_str.
        descriptor_bytes edoc ''U'' = Some U_str \<and> descriptor_bytes edoc ''O'' = Some O_str \<longrightarrow>
          no_collision P (preparePassword w @ subarray U_str 32 40)
                         (preparePassword u @ subarray U_str 32 40) \<and>
          no_collision P (preparePassword w @ subarray O_str 32 40 @ U_str)
                         (preparePassword (effectiveOwnerPassword u ow)
                            @ subarray O_str 32 40 @ U_str)"
  shows "decryptPDF P edoc w = Inl WrongPassword"
  using assms by (rule decrypt_rejects_password)

theorem C2_wrong_password_witness:
  "platform_ok demo_platform \<and>
   preparePassword ''wrong'' \<noteq> preparePassword ''user123'' \<and>
   preparePassword ''wrong'' \<noteq> preparePassword (effectiveOwnerPassword ''user123'' (Some ''owner456'')) \<and>
   (\<exists>edoc g'.
      encryptPDF demo_platform demo_doc ''user123'' (Some ''owner456'') demo_options demo_rng
        = Inr (edoc, g') \<and>
      decryptPDF demo_platform edoc ''wrong'' = Inl WrongPassword)"
proof -
  obtain edoc g' where
    e: "encryptPDF demo_platform demo_doc ''user123'' (Some ''owner456'') demo_options demo_rng
          = Inr (edoc, g')"
    using encryptPDF_total [OF demo_platform_ok demo_doc_skip] by blast
  have n1: "preparePassword ''wrong'' \<noteq> preparePassword ''user123''"
    by (simp add: preparePassword_short)
  have n2: "preparePassword ''wrong'' \<noteq>
      preparePassword (effectiveOwnerPassword ''user123'' (Some ''owner456''))"
    by (simp add: preparePassword_short effectiveOwnerPassword_def)
  have nc: "\<forall>U_str O_str.
        descriptor_bytes edoc ''U'' = Some U_str \<and> descriptor_bytes edoc ''O'' = Some O_str \<longrightarrow>
          no_collision demo_platform (preparePassword ''wrong'' @ subarray U_str 32 40)
                         (preparePassword ''user123'' @ subarray U_str 32 40) \<and>
          no_collision demo_platform (preparePassword ''wrong'' @ subarray O_str 32 40 @ U_str)
                         (preparePassword (effectiveOwnerPassword ''user123'' (Some ''owner456''))
                            @ subarray O_str 32 40 @ U_str)"
  proof (intro allI impI conjI)
    fix U_str O_str
    show "no_collision demo_platform (preparePassword ''wrong'' @ subarray U_str 32 40)
                         (preparePassword ''user123'' @ subarray U_str 32 40)"
      by (rule demo_no_collision [where d = 2]) (simp_all add: preparePassword_short)
    show "no_collision demo_platform (preparePassword ''wrong'' @ subarray O_str 32 40 @ U_str)
                         (preparePassword (effectiveOwnerPassword ''user123'' (Some ''owner456''))
                            @ subarray O_str 32 40 @ U_str)"
      by (rule demo_no_collision [where d = 3])
         (simp_all add: preparePassword_short effectiveOwnerPassword_def)
  qed
  have "decryptPDF demo_platform edoc ''wrong'' = Inl WrongPassword"
    by (rule C2_wrong_password [OF demo_platform_ok e n1 n2 nc])
  with e n1 n2 demo_platform_ok show ?thesis by blast
qed

section \<open>Key derivation: owner record, lengths, permissions seal\<close>

text \<open>
  C6. In \<open>computeRev5Keys\<close> the user material \<open>U\<close> has 48 bytes and is formed first; the
  owner hash, the first 32 bytes of \<open>O\<close>, is the digest of the owner password, the owner
  validation salt (bytes 32 to 40 of \<open>O\<close>) and \<open>U\<close>; the owner wrapping key, under which
  \<open>OE\<close> is the unpadded chained encryption of the file key with a zero IV, is the digest
  of the owner password, the owner key salt (bytes 40 to 48 of \<open>O\<close>) and \<open>U\<close>.
  Consequently recovery with the owner password, which recomputes both digests over
  the stored \<open>U\<close>, returns the file key (the digest of the owner password with the user
  validation salt not colliding with that of the user password).
\<close>

theorem C6_owner_bound_to_user:
  assumes "platform_ok P"
    and "computeRev5Keys P params g = Inr (keys, g1)"
    and "ownerPwd = preparePassword
           (if ownerPassword params \<noteq> [] then ownerPassword params else userPassword params)"
  shows "length (rev5_U keys) = 48 \<and>
         subarray (rev5_O keys) 0 32 =
           sha256 P (concat_bytes [ownerPwd, subarray (rev5_O keys) 32 40, rev5_U keys]) \<and>
         aes256CbcEncryptNoPadding P
           (sha256 P (concat_bytes [ownerPwd, subarray (rev5_O keys) 40 48, rev5_U keys]))
           ZERO_IV (fileEncryptionKey keys) = Inr (rev5_OE keys) \<and>
         (\<forall>pw. preparePassword pw = ownerPwd \<and>
               no_collision P (ownerPwd @ subarray (rev5_U keys) 32 40)
                 (preparePassword (userPassword params) @ subarray (rev5_U keys) 32 40) \<longrightarrow>
               deriveFileKeyFromPassword P pw (rev5_U keys) (rev5_O keys) (rev5_OE keys)
                 (rev5_UE keys) = Some (fileEncryptionKey keys))"
proof -
  have c: "cipher_ok P" and dg: "digest_ok P"
    using assms(1) by (simp_all add: platform_ok_def)
  let ?upw = "preparePassword (userPassword params)"
  let ?fk = "fileEncryptionKey keys"
  from computeRev5Keys_facts [OF assms(1,2)] obtain uvs uks ovs oks where
    l: "length uvs = 8" "length uks = 8" "length ovs = 8" "length oks = 8"
    and lfk: "length ?fk = 32"
    and U: "rev5_U keys = sha256 P (?upw @ uvs) @ uvs @ uks"
    and O: "rev5_O keys = sha256 P (ownerPwd @ ovs @ rev5_U keys) @ ovs @ oks"
    and UE: "rev5_UE keys = cbc_enc_blocks P (sha256 P (?upw @ uks)) ZERO_IV (chunks16 ?fk)"
    and OE: "rev5_OE keys =
        cbc_enc_blocks P (sha256 P (ownerPwd @ oks @ rev5_U keys)) ZERO_IV (chunks16 ?fk)"
    unfolding assms(3) by blast
  have lU: "length (rev5_U keys) = 48"
    unfolding U using l by (simp add: length_sha256 [OF dg])
  have sU: "subarray (rev5_U keys) 0 32 = sha256 P (?upw @ uvs)"
      "subarray (rev5_U keys) 32 40 = uvs" "subarray (rev5_U keys) 40 48 = uks"
    unfolding U by (rule subarray_material [OF length_sha256 [OF dg] l(1,2)])+
  have sO: "subarray (rev5_O keys) 0 32 = sha256 P (ownerPwd @ ovs @ rev5_U keys)"
      "subarray (rev5_O keys) 32 40 = ovs" "subarray (rev5_O keys) 40 48 = oks"
    by (subst O, rule subarray_material [OF length_sha256 [OF dg] l(3,4)])+
  have wrap: "aes256CbcEncryptNoPadding P (sha256 P (ownerPwd @ oks @ rev5_U keys)) ZERO_IV ?fk
      = Inr (rev5_OE keys)"
    unfolding OE by (rule noPadding_encrypt_key [OF c length_sha256 [OF dg] lfk])
  have wU: "tryUnwrap P (sha256 P (?upw @ uks)) (rev5_UE keys) = Some ?fk"
    unfolding UE by (rule tryUnwrap_wrapped [OF c length_sha256 [OF dg] lfk])
  have wO: "tryUnwrap P (sha256 P (ownerPwd @ oks @ rev5_U keys)) (rev5_OE keys) = Some ?fk"
    by (subst OE, rule tryUnwrap_wrapped [OF c length_sha256 [OF dg] lfk])
  have rec: "deriveFileKeyFromPassword P pw (rev5_U keys) (rev5_O keys) (rev5_OE keys)
                 (rev5_UE keys) = Some ?fk"
    if p: "preparePassword pw = ownerPwd"
      and nc: "no_collision P (ownerPwd @ uvs) (?upw @ uvs)" for pw
  proof (cases "sha256 P (ownerPwd @ uvs) = sha256 P (?upw @ uvs)")
    case True
    with nc have "ownerPwd = ?upw" by (simp add: no_collision_def)
    then show ?thesis
      by (intro derive_user_match) (simp_all add: p sU wU)
  next
    case False
    then show ?thesis
      by (intro derive_owner_match) (simp_all add: p sU sO wO)
  qed
  show ?thesis
    using lU sO wrap rec by (simp add: concat_bytes_def sU)
qed

theorem C6_owner_bound_to_user_witness:
  "platform_ok demo_platform \<and>
   (\<exists>keys g1. computeRev5Keys demo_platform (rev5Params ''user123'' (Some ''owner456'') demo_options)
        demo_rng = Inr (keys, g1) \<and>
      length (rev5_U keys) = 48 \<and>
      subarray (rev5_O keys) 0 32 =
        sha256 demo_platform (concat_bytes [preparePassword ''owner456'',
          subarray (rev5_O keys) 32 40, rev5_U keys]) \<and>
      deriveFileKeyFromPassword demo_platform ''owner456'' (rev5_U keys) (rev5_O keys)
        (rev5_OE keys) (rev5_UE keys) = Some (fileEncryptionKey keys))"
proof -
  obtain keys g1 where
    k: "computeRev5Keys demo_platform (rev5Params ''user123'' (Some ''owner456'') demo_options)
        demo_rng = Inr (keys, g1)"
    by (simp add: computeRev5Keys_value [OF demo_platform_ok] Let_def)
  have o: "preparePassword ''owner456'' = preparePassword
           (if ownerPassword (rev5Params ''user123'' (Some ''owner456'') demo_options) \<noteq> []
            then ownerPassword (rev5Params ''user123'' (Some ''owner456'') demo_options)
            else userPassword (rev5Params ''user123'' (Some ''owner456'') demo_options))"
    by (simp add: rev5Params_def)
  have nc: "no_collision demo_platform (preparePassword ''owner456'' @ subarray (rev5_U keys) 32 40)
      (preparePassword (userPassword (rev5Params ''user123'' (Some ''owner456'') demo_options))
         @ subarray (rev5_U keys) 32 40)"
    by (rule demo_no_collision [where d = 1]) (simp_all add: preparePassword_short)
  show ?thesis
    using C6_owner_bound_to_user [OF demo_platform_ok k o] k nc demo_platform_ok by blast
qed

lemma computeRev5Keys_lengths:
  assumes ok: "platform_ok P"
    and k: "computeRev5Keys P params g = Inr (keys, g1)"
  shows "length (rev5_O keys) = 48" "length (rev5_U keys) = 48"
    "length (rev5_OE keys) = 32" "length (rev5_UE keys) = 32" "length (rev5_Perms keys) = 16"
proof -
  have c: "cipher_ok P" and dg: "digest_ok P"
    using ok by (simp_all add: platform_ok_def)
  from computeRev5Keys_facts [OF ok k] obtain uvs uks ovs oks rnd opw where
    l: "length uvs = 8" "length uks = 8" "length ovs = 8" "length oks = 8" "length rnd = 4"
    and lfk: "length (fileEncryptionKey keys) = 32"
    and U: "rev5_U keys = sha256 P (preparePassword (userPassword params) @ uvs) @ uvs @ uks"
    and O: "rev5_O keys = sha256 P (opw @ ovs @ rev5_U keys) @ ovs @ oks"
    and UE: "rev5_UE keys =
        cbc_enc_blocks P (sha256 P (preparePassword (userPassword params) @ uks)) ZERO_IV
          (chunks16 (fileEncryptionKey keys))"
    and OE: "rev5_OE keys =
        cbc_enc_blocks P (sha256 P (opw @ oks @ rev5_U keys)) ZERO_IV
          (chunks16 (fileEncryptionKey keys))"
    and Pm: "rev5_Perms keys =
        block_enc P (fileEncryptionKey keys)
          (take 12 (permsBlock_of (permissions params) (encryptMetadata params)) @ rnd)"
    by blast
  show "length (rev5_U keys) = 48"
    unfolding U using l by (simp add: length_sha256 [OF dg])
  show "length (rev5_O keys) = 48"
    by (subst O) (simp add: l length_sha256 [OF dg])
  show "length (rev5_UE keys) = 32"
    unfolding UE by (rule length_wrapped_key [OF c length_sha256 [OF dg] lfk])
  show "length (rev5_OE keys) = 32"
    by (subst OE) (rule length_wrapped_key [OF c length_sha256 [OF dg] lfk])
  have "length (take 12 (permsBlock_of (permissions params) (encryptMetadata params)) @ rnd) = 16"
    using l by simp
  then show "length (rev5_Perms keys) = 16"
    unfolding Pm using c lfk by (simp add: cipher_ok_def)
qed

text \<open>
  C8. For every successful \<open>encryptPDF\<close> call, the fields of the descriptor the trailer
  points to have fixed lengths: \<open>O\<close> and \<open>U\<close> 48 bytes each, \<open>OE\<close> and \<open>UE\<close> 32 bytes
  each, \<open>Perms\<close> 16 bytes (on a platform whose digest has 32 bytes and whose block
  transformation keeps the block length).
\<close>

theorem C8_descriptor_lengths:
  assumes "platform_ok P"
    and "encryptPDF P doc u ow opts g = Inr (edoc, g')"
  shows "map_option length (descriptor_bytes edoc ''O'') = Some 48 \<and>
         map_option length (descriptor_bytes edoc ''U'') = Some 48 \<and>
         map_option length (descriptor_bytes edoc ''OE'') = Some 32 \<and>
         map_option length (descriptor_bytes edoc ''UE'') = Some 32 \<and>
         map_option length (descriptor_bytes edoc ''Perms'') = Some 16"
proof -
  from decryptPDF_encrypted [OF assms] obtain keys g0 g1 where
    k: "computeRev5Keys P (rev5Params u ow opts) g0 = Inr (keys, g1)"
    and d: "descriptor_bytes edoc ''O'' = Some (rev5_O keys)"
      "descriptor_bytes edoc ''U'' = Some (rev5_U keys)"
      "descriptor_bytes edoc ''OE'' = Some (rev5_OE keys)"
      "descriptor_bytes edoc ''UE'' = Some (rev5_UE keys)"
      "descriptor_bytes edoc ''Perms'' = Some (rev5_Perms keys)"
    by blast
  show ?thesis
    by (simp add: d computeRev5Keys_lengths [OF assms(1) k])
qed

theorem C8_descriptor_lengths_witness:
  "platform_ok demo_platform \<and>
   (\<exists>edoc g'.
      encryptPDF demo_platform demo_doc ''user123'' (Some ''owner456'') demo_options demo_rng
        = Inr (edoc, g') \<and>
      map_option length (descriptor_bytes edoc ''O'') = Some 48 \<and>
      map_option length (descriptor_bytes edoc ''U'') = Some 48 \<and>
      map_option length (descriptor_bytes edoc ''OE'') = Some 32 \<and>
      map_option length (descriptor_bytes edoc ''UE'') = Some 32 \<and>
      map_option length (descriptor_bytes edoc ''Perms'') = Some 16)"
proof -
  obtain edoc g' where
    e: "encryptPDF demo_platform demo_doc ''user123'' (Some ''owner456'') demo_options demo_rng
          = Inr (edoc, g')"
    using encryptPDF_total [OF demo_platform_ok demo_doc_skip] by blast
  show ?thesis
    using C8_descriptor_lengths [OF demo_platform_ok e] e demo_platform_ok by blast
qed

text \<open>
  C9. For every permission number and metadata flag, the permissions seal is built from
  exactly one 16-byte block: the four bytes of the 32-bit bitmask, least significant
  first, then four bytes \<open>0xFF\<close>, then the flag byte (\<open>T\<close> or \<open>F\<close>), then the tag \<open>adb\<close>,
  then the four bytes drawn last from the entropy source; \<open>Perms\<close> is that block
  encrypted as a single unpadded block under the file encryption key. The default
  bitmask of \<open>encryptPDF\<close> is \<open>-4\<close>, whose four bytes are \<open>FC FF FF FF\<close>.
\<close>

theorem C9_permissions_seal:
  assumes "platform_ok P"
    and "computeRev5Keys P params g = Inr (keys, g1)"
    and "block = le32_bytes (permissions params) @ [0xFF, 0xFF, 0xFF, 0xFF]
            @ [if encryptMetadata params then 0x54 else 0x46] @ [0x61, 0x64, 0x62]
            @ rbytes g 64 4"
  shows "length block = 16 \<and>
         fileEncryptionKey keys = rbytes g 0 32 \<and>
         aes256EcbEncrypt P (fileEncryptionKey keys) block = Inr (rev5_Perms keys) \<and>
         rev5_Perms keys = block_enc P (fileEncryptionKey keys) block \<and>
         permissions (rev5Params u ow \<lparr>opt_permissions = None, opt_encryptMetadata = m\<rparr>) = - 4 \<and>
         le32_bytes (- 4) = [0xFC, 0xFF, 0xFF, 0xFF]"
proof -
  have c: "cipher_ok P" using assms(1) by (simp add: platform_ok_def)
  have lb: "length block = 16"
    unfolding assms(3) by (simp add: le32_bytes_def)
  have tk: "take 12 (permsBlock_of (permissions params) (encryptMetadata params)) @ rbytes g 64 4
      = block"
    unfolding assms(3) permsBlock_of_layout by (simp add: le32_bytes_def)
  from assms(2) [unfolded computeRev5Keys_value [OF assms(1)] Let_def]
  have fk: "fileEncryptionKey keys = rbytes g 0 32"
    and pm: "rev5_Perms keys = block_enc P (rbytes g 0 32)
       (take 12 (permsBlock_of (permissions params) (encryptMetadata params)) @ rbytes g 64 4)"
    by auto
  have e: "aes256EcbEncrypt P (fileEncryptionKey keys) block = Inr (rev5_Perms keys)"
    unfolding pm tk fk by (rule ecb_encrypt_block [OF c _ lb]) simp
  have d: "le32_bytes (- 4) = [0xFC, 0xFF, 0xFF, 0xFF]"
    by (simp add: le32_bytes_def)
  show ?thesis
    using lb fk e pm tk d by (simp add: rev5Params_def permissionsOf_def)
qed

theorem C9_permissions_seal_witness:
  "platform_ok demo_platform \<and>
   (\<exists>keys g1.
      computeRev5Keys demo_platform (rev5Params ''user123'' (Some ''owner456'') demo_options)
        demo_rng = Inr (keys, g1) \<and>
      rev5_Perms keys = block_enc demo_platform (fileEncryptionKey keys)
        ([0xFC, 0xFF, 0xFF, 0xFF] @ [0xFF, 0xFF, 0xFF, 0xFF] @ [0x54] @ [0x61, 0x64, 0x62]
           @ rbytes demo_rng 64 4))"
proof -
  obtain keys g1 where
    k: "computeRev5Keys demo_platform (rev5Params ''user123'' (Some ''owner456'') demo_options)
        demo_rng = Inr (keys, g1)"
    by (simp add: computeRev5Keys_value [OF demo_platform_ok] Let_def)
  have b: "[0xFC, 0xFF, 0xFF, 0xFF] @ [0xFF, 0xFF, 0xFF, 0xFF] @ [0x54] @ [0x61, 0x64, 0x62]
           @ rbytes demo_rng 64 4 =
       le32_bytes (permissions (rev5Params ''user123'' (Some ''owner456'') demo_options))
         @ [0xFF, 0xFF, 0xFF, 0xFF]
         @ [if encryptMetadata (rev5Params ''user123'' (Some ''owner456'') demo_options)
            then 0x54 else 0x46] @ [0x61, 0x64, 0x62] @ rbytes demo_rng 64 4"
    by (simp add: rev5Params_def permissionsOf_def encryptMetadataOf_def demo_options_def
        le32_bytes_def)
  show ?thesis
    using C9_permissions_seal [OF demo_platform_ok k b] k demo_platform_ok by blast
qed

section \<open>Unsupported scheme\<close>

text \<open>
  C7. For every input whose trailer points to an encryption descriptor (a dictionary)
  with \<open>R\<close> or \<open>V\<close> other than 5, \<open>decryptPDF\<close> fails with the unsupported-scheme error
  carrying the two numbers, whatever the password, the platform and the other objects
  of the document are: no object is visited and no document is returned.
\<close>

theorem C7_unsupported_scheme:
  assumes "trailer_Encrypt doc = Some encryptRef"
    and "context_lookup doc (Some encryptRef) = Some (PDFDict encryptObj)"
    and "numberOf (dict_lookup doc encryptObj ''R'') \<noteq> 5 \<or>
         numberOf (dict_lookup doc encryptObj ''V'') \<noteq> 5"
  shows "decryptPDF P doc password =
           Inl (UnsupportedEncryption (numberOf (dict_lookup doc encryptObj ''R''))
                                      (numberOf (dict_lookup doc encryptObj ''V'')))"
  using assms by (auto simp: decryptPDF_def Let_def)

theorem C7_unsupported_scheme_witness:
  "trailer_Encrypt demo_legacy_doc = Some (PDFRef 1) \<and>
   decryptPDF demo_platform demo_legacy_doc ''user123'' = Inl (UnsupportedEncryption 4 4)"
proof -
  let ?d = "[(''Filter'', PDFName ''Standard''), (''V'', PDFNumber 4), (''R'', PDFNumber 4)]"
  have t: "trailer_Encrypt demo_legacy_doc = Some (PDFRef 1)"
    by (simp add: demo_legacy_doc_def)
  have l: "context_lookup demo_legacy_doc (Some (PDFRef 1)) = Some (PDFDict ?d)"
    by (simp add: demo_legacy_doc_def context_lookup_def)
  have r: "numberOf (dict_lookup demo_legacy_doc ?d ''R'') = 4"
    "numberOf (dict_lookup demo_legacy_doc ?d ''V'') = 4"
    by (simp_all add: dict_lookup_def dict_get_def context_lookup_def numberOf_def)
  have n: "numberOf (dict_lookup demo_legacy_doc ?d ''R'') \<noteq> 5 \<or>
         numberOf (dict_lookup demo_legacy_doc ?d ''V'') \<noteq> 5"
    by (simp add: r)
  show ?thesis
    using C7_unsupported_scheme [OF t l n, of demo_platform "''user123''"] t by (simp add: r)
qed

section \<open>The skip test\<close>

lemma skipStandard_name:
  "dict_get d ''Filter'' = Some (PDFName ''Standard'') \<Longrightarrow> skipStandard (PDFDict d) = Inr True"
  by (simp add: skipStandard_def asString_def)

lemma skipStandard_stream [simp]: "skipStandard (PDFRawStream sd c) = Inr False"
  by (simp add: skipStandard_def)

lemma objects_length:
  "encryptIndirectObjects enc objs g = Inr (objs', g') \<Longrightarrow> length objs' = length objs"
proof (induction objs arbitrary: g objs')
  case Nil
  then show ?case by simp
next
  case (Cons ro rest)
  obtain r0 obj0 where ro: "ro = (r0, obj0)" by (cases ro)
  from Cons.prems ro obtain obj' g1 rest' where
    t: "encryptIndirectObjects enc rest g1 = Inr (rest', g')"
    and o: "objs' = (r0, obj') # rest'"
    by (auto simp: bindE_eq_Inr)
  from Cons.IH [OF t] o show ?case by simp
qed

lemma encryptIndirectObjects_skipped:
  "encryptIndirectObjects enc objs g = Inr (objs', g') \<Longrightarrow> i < length objs \<Longrightarrow>
   objs ! i = (r, obj) \<Longrightarrow> skipStandard obj = Inr True \<Longrightarrow>
   length objs' = length objs \<and> objs' ! i = (r, obj)"
proof (induction objs arbitrary: g objs' i)
  case Nil
  then show ?case by simp
next
  case (Cons ro rest)
  obtain r0 obj0 where ro: "ro = (r0, obj0)" by (cases ro)
  from Cons.prems(1) ro obtain obj' g1 rest' where
    h: "encryptIndirectObject enc obj0 g = Inr (obj', g1)"
    and t: "encryptIndirectObjects enc rest g1 = Inr (rest', g')"
    and o: "objs' = (r0, obj') # rest'"
    by (auto simp: bindE_eq_Inr)
  show ?case
  proof (cases i)
    case 0
    with Cons.prems ro have "obj0 = obj" "r0 = r" by simp_all
    with h Cons.prems(4) have "obj' = obj" by (simp add: encryptIndirectObject_def)
    moreover have "length rest' = length rest"
      using objects_length t by blast
    ultimately show ?thesis using 0 o \<open>r0 = r\<close> by simp
  next
    case (Suc j)
    with Cons.prems have "j < length rest" "rest ! j = (r, obj)" by simp_all
    from Cons.IH [OF t this Cons.prems(4)] show ?thesis
      using Suc o by simp
  qed
qed

lemma decrypt_objects_length:
  "decryptIndirectObjects dec objs = Inr objs' \<Longrightarrow> length objs' = length objs"
proof (induction objs arbitrary: objs')
  case Nil
  then show ?case by simp
next
  case (Cons ro rest)
  obtain r0 obj0 where ro: "ro = (r0, obj0)" by (cases ro)
  from Cons.prems ro obtain obj' rest' where
    t: "decryptIndirectObjects dec rest = Inr rest'"
    and o: "objs' = (r0, obj') # rest'"
    by (auto simp: bindE_eq_Inr)
  from Cons.IH [OF t] o show ?case by simp
qed

lemma decryptIndirectObjects_skipped:
  "decryptIndirectObjects dec objs = Inr objs' \<Longrightarrow> i < length objs \<Longrightarrow>
   objs ! i = (r, obj) \<Longrightarrow> skipStandard obj = Inr True \<Longrightarrow>
   length objs' = length objs \<and> objs' ! i = (r, obj)"
proof (induction objs arbitrary: objs' i)
  case Nil
  then show ?case by simp
next
  case (Cons ro rest)
  obtain r0 obj0 where ro: "ro = (r0, obj0)" by (cases ro)
  from Cons.prems(1) ro obtain obj' rest' where
    h: "decryptIndirectObject dec obj0 = Inr obj'"
    and t: "decryptIndirectObjects dec rest = Inr rest'"
    and o: "objs' = (r0, obj') # rest'"
    by (auto simp: bindE_eq_Inr)
  show ?case
  proof (cases i)
    case 0
    with Cons.prems ro have "obj0 = obj" "r0 = r" by simp_all
    with h Cons.prems(4) have "obj' = obj" by (simp add: decryptIndirectObject_def)
    moreover have "length rest' = length rest"
      using decrypt_objects_length t by blast
    ultimately show ?thesis using 0 o \<open>r0 = r\<close> by simp
  next
    case (Suc j)
    with Cons.prems have "j < length rest" "rest ! j = (r, obj)" by simp_all
    from Cons.IH [OF t this Cons.prems(4)] show ?thesis
      using Suc o by simp
  qed
qed

lemma decryptPDF_Inr:
  assumes "decryptPDF P doc pw = Inr ddoc"
  shows "\<exists>fk. decryptIndirectObjects (\<lambda>data. decryptObject P data fk) (objects doc)
               = Inr (objects ddoc)"
proof -
  from assms obtain encryptRef where t: "trailer_Encrypt doc = Some encryptRef"
    by (cases "trailer_Encrypt doc") (simp_all add: decryptPDF_def)
  from assms t obtain d where l: "context_lookup doc (Some encryptRef) = Some (PDFDict d)"
    by (cases "context_lookup doc (Some encryptRef)")
       (auto simp: decryptPDF_def split: pdfobj.splits)
  from assms show ?thesis
    unfolding decryptPDF_def t l option.case pdfobj.case Let_def
    by (auto simp: bindE_eq_Inr split: if_splits option.splits prod.splits)
qed

text \<open>
  C10. The skip test of both walkers is a test on the \<open>Filter\<close> entry: every indirect
  object that is a plain dictionary whose \<open>Filter\<close> entry is the name \<open>Standard\<close>,
  the encryption descriptor or not, is left as it is, with every string nested in
  it, by \<open>encryptPDF\<close> and by \<open>decryptPDF\<close>. A stream object never takes the test: its
  contents are encrypted whatever its dictionary holds.
\<close>

theorem C10_standard_filter_skipped:
  assumes "i < length (objects doc)"
    and "objects doc ! i = (r, PDFDict d)"
    and "dict_get d ''Filter'' = Some (PDFName ''Standard'')"
  shows "(\<forall>edoc g'. encryptPDF P doc u ow opts g = Inr (edoc, g') \<longrightarrow>
            objects edoc ! i = (r, PDFDict d)) \<and>
         (\<forall>ddoc. decryptPDF P doc pw = Inr ddoc \<longrightarrow> objects ddoc ! i = (r, PDFDict d)) \<and>
         (\<forall>sd c. skipStandard (PDFRawStream sd c) = Inr False)"
proof (intro conjI allI impI)
  have s: "skipStandard (PDFDict d) = Inr True"
    using assms(3) by (rule skipStandard_name)
  {
    fix edoc g'
    assume e: "encryptPDF P doc u ow opts g = Inr (edoc, g')"
    from encryptPDF_structure [OF e] obtain keys g1 objs where
      w: "encryptIndirectObjects (\<lambda>data. encryptObject P data (fileEncryptionKey keys))
           (objects doc) g1 = Inr (objs, g')"
      and o: "objects edoc = objs @ [(Suc (fold max (map fst objs) 0),
           encryptDict_of (permissionsOf opts) (encryptMetadataOf opts) keys)]"
      by blast
    from encryptIndirectObjects_skipped [OF w assms(1,2) s]
    have "length objs = length (objects doc)" "objs ! i = (r, PDFDict d)" by simp_all
    then show "objects edoc ! i = (r, PDFDict d)"
      using assms(1) o by (simp add: nth_append)
  }
  {
    fix ddoc
    assume "decryptPDF P doc pw = Inr ddoc"
    from decryptPDF_Inr [OF this] obtain fk where
      "decryptIndirectObjects (\<lambda>data. decryptObject P data fk) (objects doc) = Inr (objects ddoc)"
      by blast
    from decryptIndirectObjects_skipped [OF this assms(1,2) s]
    show "objects ddoc ! i = (r, PDFDict d)" by simp
  }
  show "skipStandard (PDFRawStream sd c) = Inr False" for sd c
    by simp
qed

theorem C10_standard_filter_skipped_witness:
  "0 < length (objects demo_std_doc) \<and>
   (\<exists>edoc g'. encryptPDF demo_platform demo_std_doc ''user123'' None demo_options demo_rng
       = Inr (edoc, g') \<and>
     objects edoc ! 0 =
       (1, PDFDict [(''Filter'', PDFName ''Standard''),
                    (''Note'', PDFString (map of_char ''keep''))]))"
proof -
  let ?d = "[(''Filter'', PDFName ''Standard''), (''Note'', PDFString (map of_char ''keep''))]"
  have a: "0 < length (objects demo_std_doc)"
    and b: "objects demo_std_doc ! 0 = (1, PDFDict ?d)"
    and c: "dict_get ?d ''Filter'' = Some (PDFName ''Standard'')"
    by (simp_all add: demo_std_doc_def dict_get_def)
  have "\<forall>ro \<in> set (objects demo_std_doc). \<exists>skip. skipStandard (snd ro) = Inr skip"
    by (auto simp: demo_std_doc_def skipStandard_def dict_get_def asString_def)
  then obtain edoc g' where
    e: "encryptPDF demo_platform demo_std_doc ''user123'' None demo_options demo_rng
          = Inr (edoc, g')"
    using encryptPDF_total [OF demo_platform_ok] by blast
  show ?thesis
    using C10_standard_filter_skipped [OF a b c, of demo_platform "''user123''" None
        demo_options demo_rng] e a
    by blast
qed

section \<open>Corruption and wrong password\<close>

lemma skipStandard_error: "skipStandard obj = Inl e \<Longrightarrow> e = TypeError"
  by (auto simp: skipStandard_def asString_def bindE_def
      split: pdfobj.splits option.splits sum.splits)

lemma decryptObject_error:
  "decryptObject P data fk = Inl e \<Longrightarrow> length fk = 32 \<Longrightarrow> corruptEncryptedData e"
  by (auto simp: decryptObject_def aes256CbcDecrypt_def subtle_decrypt_def pkcs7_unpad_def
      corruptEncryptedData_def IV_LEN_def KEY_LENGTH_def AES_BLOCK_SIZE_def Let_def
      split: if_splits)

lemma decryptIndirectObject_error:
  assumes "decryptIndirectObject (\<lambda>data. decryptObject P data fk) obj = Inl e"
    and "length fk = 32"
  shows "corruptEncryptedData e \<or> e = TypeError"
proof (cases "skipStandard obj")
  case (Inl e')
  with assms(1) have "e = e'" by (simp add: decryptIndirectObject_def)
  with Inl show ?thesis by (simp add: skipStandard_error)
next
  case (Inr skip)
  with assms(1) have "\<exists>c. decryptObject P c fk = Inl e"
    by (cases obj; cases skip)
       (auto simp: decryptIndirectObject_def bindE_def split: sum.splits)
  with assms(2) show ?thesis by (auto dest: decryptObject_error)
qed

lemma decryptIndirectObjects_error:
  "decryptIndirectObjects (\<lambda>data. decryptObject P data fk) objs = Inl e \<Longrightarrow>
   length fk = 32 \<Longrightarrow> corruptEncryptedData e \<or> e = TypeError"
proof (induction objs)
  case Nil
  then show ?case by simp
next
  case (Cons ro rest)
  obtain r obj where ro: "ro = (r, obj)" by (cases ro)
  show ?case
  proof (cases "decryptIndirectObject (\<lambda>data. decryptObject P data fk) obj")
    case (Inl e')
    with Cons.prems ro have "e = e'" by simp
    with Inl Cons.prems(2) show ?thesis by (simp add: decryptIndirectObject_error)
  next
    case (Inr obj')
    with Cons.prems ro have "decryptIndirectObjects (\<lambda>data. decryptObject P data fk) rest = Inl e"
      by (cases "decryptIndirectObjects (\<lambda>data. decryptObject P data fk) rest") simp_all
    then show ?thesis using Cons.IH Cons.prems(2) by simp
  qed
qed

lemma decryptPDF_fields:
  assumes t: "trailer_Encrypt doc = Some encryptRef"
    and l: "context_lookup doc (Some encryptRef) = Some (PDFDict d)"
    and r: "numberOf (dict_lookup doc d ''R'') = 5"
    and v: "numberOf (dict_lookup doc d ''V'') = 5"
  shows "\<not> fieldsWellFormed d \<Longrightarrow> decryptPDF P doc pw = Inl InvalidEncryptFields"
    and "fieldsWellFormed d \<Longrightarrow>
         \<exists>U_str O_str OE UE.
           getEncryptBytes d ''U'' = Some U_str \<and> getEncryptBytes d ''O'' = Some O_str \<and>
           getEncryptBytes d ''OE'' = Some OE \<and> getEncryptBytes d ''UE'' = Some UE \<and>
           length OE = 32 \<and> length UE = 32 \<and>
           decryptPDF P doc pw =
             (case deriveFileKeyFromPassword P pw U_str O_str OE UE of
                None \<Rightarrow> Inl WrongPassword
              | Some fileKey \<Rightarrow>
                  bindE (decryptIndirectObjects (\<lambda>data. decryptObject P data fileKey)
                           (objects doc))
                    (\<lambda>objs. Inr (doc\<lparr>objects := objs, trailer_Encrypt := None\<rparr>)))"
proof -
  show "decryptPDF P doc pw = Inl InvalidEncryptFields" if "\<not> fieldsWellFormed d"
    using that unfolding decryptPDF_def t l option.case pdfobj.case Let_def r v
    by (auto simp: fieldsWellFormed_def split: option.splits)
  show "\<exists>U_str O_str OE UE.
           getEncryptBytes d ''U'' = Some U_str \<and> getEncryptBytes d ''O'' = Some O_str \<and>
           getEncryptBytes d ''OE'' = Some OE \<and> getEncryptBytes d ''UE'' = Some UE \<and>
           length OE = 32 \<and> length UE = 32 \<and>
           decryptPDF P doc pw =
             (case deriveFileKeyFromPassword P pw U_str O_str OE UE of
                None \<Rightarrow> Inl WrongPassword
              | Some fileKey \<Rightarrow>
                  bindE (decryptIndirectObjects (\<lambda>data. decryptObject P data fileKey)
                           (objects doc))
                    (\<lambda>objs. Inr (doc\<lparr>objects := objs, trailer_Encrypt := None\<rparr>)))"
    if "fieldsWellFormed d"
  proof -
    from that obtain U_str O_str OE UE where
      g: "getEncryptBytes d ''U'' = Some U_str" "getEncryptBytes d ''O'' = Some O_str"
        "getEncryptBytes d ''OE'' = Some OE" "getEncryptBytes d ''UE'' = Some UE"
      and len: "length U_str = 48" "length O_str = 48" "length OE = 32" "length UE = 32"
      by (auto simp: fieldsWellFormed_def)
    have "decryptPDF P doc pw =
             (case deriveFileKeyFromPassword P pw U_str O_str OE UE of
                None \<Rightarrow> Inl WrongPassword
              | Some fileKey \<Rightarrow>
                  bindE (decryptIndirectObjects (\<lambda>data. decryptObject P data fileKey)
                           (objects doc))
                    (\<lambda>objs. Inr (doc\<lparr>objects := objs, trailer_Encrypt := None\<rparr>)))"
      unfolding decryptPDF_def t l option.case pdfobj.case Let_def r v g prod.case
      by (simp add: len)
    with g len show ?thesis by blast
  qed
qed

lemma decryptIndirectObjects_stream_fails:
  assumes "decryptIndirectObjects dec pre = Inr pre'" and "dec c = Inl e"
  shows "decryptIndirectObjects dec (pre @ (r, PDFRawStream sd c) # post) = Inl e"
  using assms
  by (simp add: decryptIndirectObjects_append decryptIndirectObject_def)

text \<open>
  C4. On a descriptor of the supported scheme: when a wrapped-key or password-material
  field is absent or has other than its required length, \<open>decryptPDF\<close> fails with the
  invalid-fields error, whatever the password; when the fields are well formed and the
  password matches a validation hash, key recovery returns a 32-byte key and the
  outcome is that of the walk under this key: a stream whose decryption fails, the
  objects before it having been processed, makes \<open>decryptPDF\<close> fail with that error, a
  corruption error; and every failure is a failed payload decryption (too short,
  ciphertext not a whole number of blocks, bad padding) or the \<open>TypeError\<close> of the skip
  test, never \<open>WrongPassword\<close>. \<open>WrongPassword\<close> is the outcome
  exactly when the fields are well formed and the password matches neither hash. The
  corruption errors are distinct from \<open>WrongPassword\<close>.
\<close>

theorem C4_corruption_not_wrong_password:
  assumes "platform_ok P"
    and "trailer_Encrypt doc = Some encryptRef"
    and "context_lookup doc (Some encryptRef) = Some (PDFDict d)"
    and "numberOf (dict_lookup doc d ''R'') = 5"
    and "numberOf (dict_lookup doc d ''V'') = 5"
  shows "(\<not> fieldsWellFormed d \<longrightarrow> decryptPDF P doc pw = Inl InvalidEncryptFields) \<and>
         (fieldsWellFormed d \<and> passwordMatches P pw d \<longrightarrow>
            (\<exists>fileKey. length fileKey = 32 \<and>
               decryptPDF P doc pw =
                 bindE (decryptIndirectObjects (\<lambda>data. decryptObject P data fileKey)
                          (objects doc))
                   (\<lambda>objs. Inr (doc\<lparr>objects := objs, trailer_Encrypt := None\<rparr>)) \<and>
               (\<forall>pre pre' r sd c post e.
                  objects doc = pre @ (r, PDFRawStream sd c) # post \<and>
                  decryptIndirectObjects (\<lambda>data. decryptObject P data fileKey) pre = Inr pre' \<and>
                  decryptObject P c fileKey = Inl e \<longrightarrow>
                  decryptPDF P doc pw = Inl e \<and> corruptEncryptedData e)) \<and>
            (\<forall>e. decryptPDF P doc pw = Inl e \<longrightarrow> corruptEncryptedData e \<or> e = TypeError)) \<and>
         (decryptPDF P doc pw = Inl WrongPassword \<longleftrightarrow>
            fieldsWellFormed d \<and> \<not> passwordMatches P pw d) \<and>
         corruptEncryptedData InvalidEncryptFields \<and> \<not> corruptEncryptedData WrongPassword"
proof -
  note f = decryptPDF_fields [OF assms(2-5)]
  have a: "\<not> fieldsWellFormed d \<longrightarrow> decryptPDF P doc pw = Inl InvalidEncryptFields"
    using f(1) by blast
  have b: "(\<exists>fileKey. length fileKey = 32 \<and>
               decryptPDF P doc pw =
                 bindE (decryptIndirectObjects (\<lambda>data. decryptObject P data fileKey)
                          (objects doc))
                   (\<lambda>objs. Inr (doc\<lparr>objects := objs, trailer_Encrypt := None\<rparr>)) \<and>
               (\<forall>pre pre' r sd c post e.
                  objects doc = pre @ (r, PDFRawStream sd c) # post \<and>
                  decryptIndirectObjects (\<lambda>data. decryptObject P data fileKey) pre = Inr pre' \<and>
                  decryptObject P c fileKey = Inl e \<longrightarrow>
                  decryptPDF P doc pw = Inl e \<and> corruptEncryptedData e)) \<and>
            (\<forall>e. decryptPDF P doc pw = Inl e \<longrightarrow> corruptEncryptedData e \<or> e = TypeError)"
    if w: "fieldsWellFormed d" and m: "passwordMatches P pw d"
  proof -
    from f(2) [OF w, of P pw] obtain U_str O_str OE UE where
      g: "getEncryptBytes d ''U'' = Some U_str" "getEncryptBytes d ''O'' = Some O_str"
      and len: "length OE = 32" "length UE = 32"
      and dec: "decryptPDF P doc pw =
             (case deriveFileKeyFromPassword P pw U_str O_str OE UE of
                None \<Rightarrow> Inl WrongPassword
              | Some fileKey \<Rightarrow>
                  bindE (decryptIndirectObjects (\<lambda>data. decryptObject P data fileKey)
                           (objects doc))
                    (\<lambda>objs. Inr (doc\<lparr>objects := objs, trailer_Encrypt := None\<rparr>)))"
      by blast
    from m g have "sha256 P (preparePassword pw @ subarray U_str 32 40) = subarray U_str 0 32 \<or>
         sha256 P (preparePassword pw @ subarray O_str 32 40 @ U_str) = subarray O_str 0 32"
      by (simp add: passwordMatches_def)
    from derive_match_total [OF assms(1) len(2,1) this] obtain k where
      k: "deriveFileKeyFromPassword P pw U_str O_str OE UE = Some k" "length k = 32"
      by blast
    have d1: "decryptPDF P doc pw =
                 bindE (decryptIndirectObjects (\<lambda>data. decryptObject P data k) (objects doc))
                   (\<lambda>objs. Inr (doc\<lparr>objects := objs, trailer_Encrypt := None\<rparr>))"
      by (simp add: dec k(1))
    have "corruptEncryptedData e \<or> e = TypeError" if "decryptPDF P doc pw = Inl e" for e
    proof -
      from that d1 have "decryptIndirectObjects (\<lambda>data. decryptObject P data k) (objects doc) = Inl e"
        by (cases "decryptIndirectObjects (\<lambda>data. decryptObject P data k) (objects doc)") simp_all
      then show ?thesis using k(2) by (rule decryptIndirectObjects_error)
    qed
    moreover have "decryptPDF P doc pw = Inl e \<and> corruptEncryptedData e"
      if o: "objects doc = pre @ (r, PDFRawStream sd c) # post"
        and p: "decryptIndirectObjects (\<lambda>data. decryptObject P data k) pre = Inr pre'"
        and x: "decryptObject P c k = Inl e" for pre pre' r sd c post e
    proof -
      have "decryptIndirectObjects (\<lambda>data. decryptObject P data k) (objects doc) = Inl e"
        unfolding o using p x by (rule decryptIndirectObjects_stream_fails)
      then have "decryptPDF P doc pw = Inl e" by (simp add: d1)
      moreover have "corruptEncryptedData e" using x k(2) by (rule decryptObject_error)
      ultimately show ?thesis by simp
    qed
    ultimately show ?thesis using d1 k(2) by blast
  qed
  have c1: "decryptPDF P doc pw = Inl WrongPassword"
    if w: "fieldsWellFormed d" and m: "\<not> passwordMatches P pw d"
  proof -
    from f(2) [OF w, of P pw] obtain U_str O_str OE UE where
      g: "getEncryptBytes d ''U'' = Some U_str" "getEncryptBytes d ''O'' = Some O_str"
      and dec: "decryptPDF P doc pw =
             (case deriveFileKeyFromPassword P pw U_str O_str OE UE of
                None \<Rightarrow> Inl WrongPassword
              | Some fileKey \<Rightarrow>
                  bindE (decryptIndirectObjects (\<lambda>data. decryptObject P data fileKey)
                           (objects doc))
                    (\<lambda>objs. Inr (doc\<lparr>objects := objs, trailer_Encrypt := None\<rparr>)))"
      by blast
    from m g have "deriveFileKeyFromPassword P pw U_str O_str OE UE = None"
      by (intro derive_no_match) (simp_all add: passwordMatches_def)
    then show ?thesis by (simp add: dec)
  qed
  have n: "\<not> corruptEncryptedData WrongPassword" "corruptEncryptedData InvalidEncryptFields"
    by (simp_all add: corruptEncryptedData_def)
  have c2: "fieldsWellFormed d \<and> \<not> passwordMatches P pw d"
    if wp: "decryptPDF P doc pw = Inl WrongPassword"
  proof -
    have w: "fieldsWellFormed d"
      using a wp by auto
    moreover have "\<not> passwordMatches P pw d"
    proof
      assume "passwordMatches P pw d"
      from b [OF w this] wp have "corruptEncryptedData WrongPassword \<or> WrongPassword = TypeError"
        by blast
      with n show False by simp
    qed
    ultimately show ?thesis by simp
  qed
  show ?thesis
    using a b c1 c2 n by blast
qed


lemma demo_corrupt_facts:
  "trailer_Encrypt demo_corrupt_doc = Some (PDFRef 2)"
  "context_lookup demo_corrupt_doc (Some (PDFRef 2)) = Some (PDFDict demo_corrupt_descriptor)"
  "numberOf (dict_lookup demo_corrupt_doc demo_corrupt_descriptor ''R'') = 5"
  "numberOf (dict_lookup demo_corrupt_doc demo_corrupt_descriptor ''V'') = 5"
  by (simp_all add: demo_corrupt_doc_def context_lookup_def dict_lookup_def dict_get_def
      numberOf_def demo_corrupt_descriptor_def)

lemma demo_corrupt_fields: "fieldsWellFormed demo_corrupt_descriptor"
  using demo_digest_ok
  by (simp add: fieldsWellFormed_def demo_corrupt_descriptor_def getEncryptBytes_def
      dict_get_def digest_ok_def zeros_def)

lemma demo_corrupt_matches: "passwordMatches demo_platform ''user123'' demo_corrupt_descriptor"
proof -
  let ?h = "digest demo_platform (map of_char ''user123'' @ zeros 8)"
  have lh: "length ?h = 32" using demo_digest_ok by (simp add: digest_ok_def)
  have z: "zeros 16 = zeros 8 @ zeros 8" by (simp add: zeros_def replicate_add [symmetric])
  have s: "subarray (?h @ zeros 8 @ zeros 8) 0 32 = ?h"
    "subarray (?h @ zeros 8 @ zeros 8) 32 40 = zeros 8"
    by (rule subarray_material [OF lh]; simp add: zeros_def)+
  have g: "getEncryptBytes demo_corrupt_descriptor ''U'' = Some (?h @ zeros 8 @ zeros 8)"
    "getEncryptBytes demo_corrupt_descriptor ''O'' = Some (zeros 48)"
    by (simp_all add: demo_corrupt_descriptor_def getEncryptBytes_def dict_get_def z)
  show ?thesis
    unfolding passwordMatches_def g option.case prod.case s
    by (simp add: sha256_def preparePassword_short)
qed

theorem C4_corruption_not_wrong_password_witness:
  "platform_ok demo_platform \<and>
   trailer_Encrypt demo_corrupt_doc = Some (PDFRef 2) \<and>
   fieldsWellFormed demo_corrupt_descriptor \<and>
   passwordMatches demo_platform ''user123'' demo_corrupt_descriptor \<and>
   decryptPDF demo_platform demo_corrupt_doc ''user123'' = Inl ObjectTooShort \<and>
   corruptEncryptedData ObjectTooShort"
proof -
  from C4_corruption_not_wrong_password [OF demo_platform_ok demo_corrupt_facts,
      of "''user123''"] demo_corrupt_fields demo_corrupt_matches
  obtain fileKey where
    f: "\<forall>pre pre' r sd c post e.
          objects demo_corrupt_doc = pre @ (r, PDFRawStream sd c) # post \<and>
          decryptIndirectObjects (\<lambda>data. decryptObject demo_platform data fileKey) pre = Inr pre' \<and>
          decryptObject demo_platform c fileKey = Inl e \<longrightarrow>
          decryptPDF demo_platform demo_corrupt_doc ''user123'' = Inl e \<and> corruptEncryptedData e"
    by blast
  have o: "objects demo_corrupt_doc =
      [] @ (1, PDFRawStream [(''Length'', PDFNumber 3)] [1, 2, 3])
         # [(2, PDFDict demo_corrupt_descriptor)]"
    by (simp add: demo_corrupt_doc_def)
  have p: "decryptIndirectObjects (\<lambda>data. decryptObject demo_platform data fileKey) [] = Inr []"
    by simp
  have x: "decryptObject demo_platform [1, 2, 3] fileKey = Inl ObjectTooShort"
    by (simp add: decryptObject_def IV_LEN_def)
  from f o p x have "decryptPDF demo_platform demo_corrupt_doc ''user123'' = Inl ObjectTooShort \<and>
      corruptEncryptedData ObjectTooShort"
    by blast
  then show ?thesis
    using demo_platform_ok demo_corrupt_facts(1) demo_corrupt_fields demo_corrupt_matches by simp
qed

end
